theory Spec2Isabelle
  imports Main
begin

unbundle bit_operations_syntax

section \<open>wastebin: the resource-convergence engine of \<^verbatim>\<open>src/wastebin.c\<close>\<close>

text \<open>
  The daemon keeps two flag arrays over CPU indices (\<^verbatim>\<open>cpus_online\<close>, \<^verbatim>\<open>cpus_taken\<close>),
  a counter of taken CPUs and the size of the locked prefix of its memory segment. The
  embedding follows the C functions one by one. What the C code does through system calls
  is made explicit: every reply of the operating system is an input (\<open>env\<close>), every
  operation the daemon issues is appended to a log (\<open>issued\<close>), and every way of leaving
  a function other than by returning is a value of type \<open>abort\<close>.
\<close>

subsection \<open>Constants\<close>

definition max_cpu_count :: nat where
  "max_cpu_count = 4096"

text \<open>\<^verbatim>\<open>unsigned\<close> is 32 bits wide; arithmetic on it wraps modulo \<open>UINT_MOD\<close>.\<close>

definition UINT_MOD :: nat where
  "UINT_MOD = 2 ^ 32"

text \<open>\<^verbatim>\<open>size_t\<close> is 64 bits wide on the Linux targets the program is written for.\<close>

definition SIZE_MOD :: int where
  "SIZE_MOD = 2 ^ 64"

text \<open>Values of \<^verbatim>\<open>errno.h\<close> and \<^verbatim>\<open>poll.h\<close> on Linux.\<close>

definition EPERM :: int where
  "EPERM = 1"

definition EAGAIN :: int where
  "EAGAIN = 11"

definition EEXIST :: int where
  "EEXIST = 17"

definition POLLIN :: int where
  "POLLIN = 1"

subsection \<open>State, effects and aborts\<close>

text \<open>
  A \<^verbatim>\<open>char[max_cpu_count]\<close> array of flags is a function from the index to the flag; the
  code stores only 0 and 1 in it, so a flag is a \<open>bool\<close>. Its index domain is
  \<open>[0, max_cpu_count)\<close>: the model never applies it outside, and a read the C code would
  make outside is the outcome \<open>Out_of_bounds\<close>.
\<close>

type_synonym cpu_states = "nat \<Rightarrow> bool"

datatype effect =
    Cpu_state nat bool   \<comment> \<open>the digit written to \<^verbatim>\<open>cpu<n>/online\<close>: \<open>False\<close> is '0', \<open>True\<close> is '1'\<close>
  | Mlock int int        \<comment> \<open>offset and length inside the segment\<close>
  | Munlock int int
  | Madvise_dontneed int int

datatype abort =
    Fail_exit string     \<comment> \<open>\<^verbatim>\<open>fail_exit(msg, cmdstr)\<close>: prints the message, exit status 1\<close>
  | Perror_exit string   \<comment> \<open>\<^verbatim>\<open>perror(msg); exit(EXIT_FAILURE)\<close>\<close>
  | Out_of_bounds nat    \<comment> \<open>a flag array read at an index outside its domain (undefined in C)\<close>

record wastebin =
  cpus_online :: cpu_states
  cpus_taken :: cpu_states
  wastebin_cpus_taken :: nat
  wastebin_memory_taken :: int
  wastebin_max_size :: int
  issued :: "effect list"

text \<open>
  The replies of the operating system. \<open>cpu_file cpu state\<close> is the pair of the file
  descriptor returned by \<^verbatim>\<open>open\<close> and the value returned by \<^verbatim>\<open>write\<close> inside
  \<^verbatim>\<open>set_cpu_online_state(cpu, state)\<close>; \<open>mlock_reply off len\<close> is the pair of the value
  returned by \<^verbatim>\<open>mlock\<close> and the \<^verbatim>\<open>errno\<close> it leaves. One call of \<^verbatim>\<open>adjust_cpus\<close> writes
  to each control file at most once, so a reply per CPU and digit is all it can observe.
\<close>

record env =
  cpu_file :: "nat \<Rightarrow> bool \<Rightarrow> int \<times> int"
  mlock_reply :: "int \<Rightarrow> int \<Rightarrow> int \<times> int"

type_synonym outcome = "(abort \<times> wastebin) + wastebin"

subsection \<open>CPU adjuster\<close>

text \<open>
  \<^verbatim>\<open>set_cpu_online_state\<close>: \<^verbatim>\<open>nb\<close> is a \<^verbatim>\<open>size_t\<close>, so the value returned by \<^verbatim>\<open>write\<close> is
  compared after conversion to an unsigned 64-bit number.
\<close>

definition set_cpu_online_state :: "env \<Rightarrow> nat \<Rightarrow> bool \<Rightarrow> wastebin \<Rightarrow> outcome" where
  "set_cpu_online_state e cpu online_state s =
     (let fh = fst (cpu_file e cpu online_state);
          nb = snd (cpu_file e cpu online_state) mod SIZE_MOD
      in if fh < 0 then Inl (Perror_exit ''opening cpu online state file'', s)
         else let s' = s\<lparr>issued := issued s @ [Cpu_state cpu online_state]\<rparr>
              in if nb < 1 then Inl (Perror_exit ''writing online state'', s')
                 else Inr s')"

text \<open>\<^verbatim>\<open>count_cpu_set\<close>: the sum of the flags over the whole index domain.\<close>

definition count_cpu_set :: "cpu_states \<Rightarrow> nat" where
  "count_cpu_set cpu_states = (\<Sum>i\<leftarrow>[0..<max_cpu_count]. if cpu_states i then 1 else 0)"

text \<open>
  The inner \<^verbatim>\<open>do { last_online -= 1; } while (last_online >= 0 && !cpus_online[last_online])\<close>
  of \<^verbatim>\<open>adjust_cpus\<close>. \<^verbatim>\<open>last_online\<close> is unsigned: the decrement wraps and
  \<^verbatim>\<open>last_online >= 0\<close> is always true, so the only test left is the array read.
\<close>

function scan_last_online :: "cpu_states \<Rightarrow> nat \<Rightarrow> abort + nat" where
  "scan_last_online online last_online =
     (let lo = (last_online + UINT_MOD - 1) mod UINT_MOD
      in if max_cpu_count \<le> lo then Inl (Out_of_bounds lo)
         else if \<not> online lo then scan_last_online online lo
         else Inr lo)"
  by pat_completeness auto
termination
proof (relation "measure (\<lambda>(online, last_online). last_online)")
  show "wf (measure (\<lambda>(online, last_online). last_online))" by simp
next
  fix online :: cpu_states and last_online lo :: nat
  assume lo: "lo = (last_online + UINT_MOD - 1) mod UINT_MOD"
    and inb: "\<not> max_cpu_count \<le> lo"
  have "last_online \<noteq> 0"
  proof
    assume "last_online = 0"
    then have "lo = UINT_MOD - 1" using lo by (simp add: UINT_MOD_def)
    then show False using inb by (simp add: UINT_MOD_def max_cpu_count_def)
  qed
  then have "last_online + UINT_MOD - 1 = (last_online - 1) + UINT_MOD"
    by (simp add: UINT_MOD_def)
  then have "lo = (last_online - 1) mod UINT_MOD"
    using lo by simp
  then have "lo \<le> last_online - 1"
    by simp
  with \<open>last_online \<noteq> 0\<close> show "((online, lo), (online, last_online)) \<in> measure (\<lambda>(online, last_online). last_online)"
    by simp
qed

declare scan_last_online.simps [simp del]

text \<open>The inner \<^verbatim>\<open>while (!cpus_taken[first_taken]) first_taken += 1\<close>.\<close>

function scan_first_taken :: "cpu_states \<Rightarrow> nat \<Rightarrow> abort + nat" where
  "scan_first_taken taken first_taken =
     (if max_cpu_count \<le> first_taken then Inl (Out_of_bounds first_taken)
      else if \<not> taken first_taken then scan_first_taken taken (first_taken + 1)
      else Inr first_taken)"
  by pat_completeness auto
termination
  by (relation "measure (\<lambda>(taken, first_taken). max_cpu_count - first_taken)") auto

declare scan_first_taken.simps [simp del]

text \<open>
  The first \<^verbatim>\<open>for\<close> loop of \<^verbatim>\<open>adjust_cpus\<close> (take online CPUs offline). It returns the
  final \<^verbatim>\<open>n_taken\<close> with the state, as the second loop starts from it.
\<close>

function take_offline ::
  "env \<Rightarrow> nat \<Rightarrow> nat \<Rightarrow> nat \<Rightarrow> wastebin \<Rightarrow> (abort \<times> wastebin) + (nat \<times> wastebin)" where
  "take_offline e ncpus n_taken last_online s =
     (if n_taken < ncpus then
        (case scan_last_online (cpus_online s) last_online of
           Inl a \<Rightarrow> Inl (a, s)
         | Inr lo \<Rightarrow>
            if lo = 0 then Inl (Fail_exit ''can't exhaust online cpus'', s)
            else (case set_cpu_online_state e lo False
                         (s\<lparr>cpus_online := (cpus_online s)(lo := False),
                            cpus_taken := (cpus_taken s)(lo := True)\<rparr>) of
                    Inl x \<Rightarrow> Inl x
                  | Inr s' \<Rightarrow> take_offline e ncpus (n_taken + 1) lo s'))
      else Inr (n_taken, s))"
  by pat_completeness auto
termination
  by (relation "measure (\<lambda>(e, ncpus, n_taken, last_online, s). ncpus - n_taken)") auto

declare take_offline.simps [simp del]

text \<open>The second \<^verbatim>\<open>for\<close> loop of \<^verbatim>\<open>adjust_cpus\<close> (put taken CPUs back online).\<close>

function put_online :: "env \<Rightarrow> nat \<Rightarrow> nat \<Rightarrow> nat \<Rightarrow> wastebin \<Rightarrow> outcome" where
  "put_online e ncpus n_taken first_taken s =
     (if ncpus < n_taken then
        (case scan_first_taken (cpus_taken s) first_taken of
           Inl a \<Rightarrow> Inl (a, s)
         | Inr ft \<Rightarrow>
            (case set_cpu_online_state e ft True
                        (s\<lparr>cpus_taken := (cpus_taken s)(ft := False),
                           cpus_online := (cpus_online s)(ft := True)\<rparr>) of
               Inl x \<Rightarrow> Inl x
             | Inr s' \<Rightarrow> put_online e ncpus (n_taken - 1) (ft + 1) s'))
      else Inr s)"
  by pat_completeness auto
termination
  by (relation "measure (\<lambda>(e, ncpus, n_taken, first_taken, s). n_taken - ncpus)") auto

declare put_online.simps [simp del]

definition adjust_cpus :: "env \<Rightarrow> nat \<Rightarrow> wastebin \<Rightarrow> outcome" where
  "adjust_cpus e ncpus s =
     (let n_taken = count_cpu_set (cpus_taken s)
      in if n_taken \<noteq> wastebin_cpus_taken s then Inl (Fail_exit ''adjusting cpus taken'', s)
         else (case take_offline e ncpus n_taken max_cpu_count s of
                 Inl x \<Rightarrow> Inl x
               | Inr (n_taken', s1) \<Rightarrow>
                  (case put_online e ncpus n_taken' 0 s1 of
                     Inl x \<Rightarrow> Inl x
                   | Inr s2 \<Rightarrow> Inr (s2\<lparr>wastebin_cpus_taken := ncpus\<rparr>))))"

subsection \<open>Memory adjuster\<close>

text \<open>
  \<^verbatim>\<open>adjust_memory\<close>. The \<^verbatim>\<open>switch\<close> is on the value \<^verbatim>\<open>mlock\<close> returned. The residency
  report of \<^verbatim>\<open>show_incore_memory\<close> only prints; it changes neither the state nor the
  lock, and is left out of the log.
\<close>

definition adjust_memory :: "env \<Rightarrow> int \<Rightarrow> wastebin \<Rightarrow> outcome" where
  "adjust_memory e membytes s =
     (if wastebin_memory_taken s < membytes then
        (let ec = fst (mlock_reply e (wastebin_memory_taken s) (membytes - wastebin_memory_taken s));
             s1 = s\<lparr>issued := issued s @
                     [Mlock (wastebin_memory_taken s) (membytes - wastebin_memory_taken s)]\<rparr>
         in if ec = 0 then Inr (s1\<lparr>wastebin_memory_taken := membytes\<rparr>)
            else if ec = EPERM then Inl (Fail_exit ''Lock memory requires CAP_IPC_LOCK'', s1)
            else Inl (Fail_exit (''Can't lock the pages in memory'' @ [CHR 0x0A]), s1))
      else if membytes < wastebin_memory_taken s then
        Inr (s\<lparr>issued := issued s @
                 [Munlock membytes (wastebin_memory_taken s - membytes),
                  Madvise_dontneed membytes (wastebin_memory_taken s - membytes)],
               wastebin_memory_taken := membytes\<rparr>)
      else Inr s)"

subsection \<open>One convergence iteration\<close>

text \<open>
  The message \<^verbatim>\<open>desired\<close> holds two \<^verbatim>\<open>long\<close>s. The body of the \<^verbatim>\<open>while (1)\<close> loop of
  \<^verbatim>\<open>main\<close> passes \<^verbatim>\<open>desired.cpus\<close> to an \<^verbatim>\<open>unsigned\<close> parameter, which keeps its low 32 bits.
\<close>

record desired =
  membytes :: int
  cpus :: int

definition converge :: "env \<Rightarrow> desired \<Rightarrow> wastebin \<Rightarrow> outcome" where
  "converge e d s =
     (case adjust_cpus e (nat (cpus d mod int UINT_MOD)) s of
        Inl x \<Rightarrow> Inl x
      | Inr s1 \<Rightarrow> adjust_memory e (membytes d) s1)"

subsection \<open>Waiting for the next target\<close>

text \<open>
  The inner loops of \<^verbatim>\<open>main\<close> that read the named pipe. The replies of \<^verbatim>\<open>read\<close> and
  \<^verbatim>\<open>poll\<close> are given as two scripts, consumed in order: a \<^verbatim>\<open>read\<close> reply is the value
  returned, the \<^verbatim>\<open>errno\<close> left and the bytes delivered when the message is complete; a
  \<^verbatim>\<open>poll\<close> reply is the value returned and \<^verbatim>\<open>revents\<close>. The loops can run forever, so the
  result is optional: \<open>None\<close> means that the daemon is still blocked when the scripts end.
  \<^verbatim>\<open>sizeof(desired)\<close> is 16, and \<^verbatim>\<open>nb\<close> is compared with it as a \<^verbatim>\<open>size_t\<close>.
\<close>

type_synonym read_reply = "int \<times> int \<times> desired"
type_synonym poll_reply = "int \<times> int"

definition sizeof_desired :: int where
  "sizeof_desired = 16"

fun poll_until_ready :: "poll_reply list \<Rightarrow> (abort + poll_reply list) option" where
  "poll_until_ready [] = None"
| "poll_until_ready ((ec, revents) # polls) =
     (if ec < 0 then Some (Inl (Fail_exit ''polling named pipe''))
      else if revents AND POLLIN = 0 then poll_until_ready polls
      else Some (Inr polls))"

fun wait_for_message ::
  "read_reply list \<Rightarrow> poll_reply list \<Rightarrow>
     (abort + desired \<times> read_reply list \<times> poll_reply list) option" where
  "wait_for_message [] polls = None"
| "wait_for_message ((nb, errno, bytes) # reads) polls =
     (if nb mod SIZE_MOD = sizeof_desired then Some (Inr (bytes, reads, polls))
      else if 0 < nb \<or> (nb < 0 \<and> errno \<noteq> EAGAIN)
        then Some (Inl (Fail_exit ''reading client command''))
      else (case poll_until_ready polls of
              None \<Rightarrow> None
            | Some (Inl a) \<Rightarrow> Some (Inl a)
            | Some (Inr polls') \<Rightarrow> wait_for_message reads polls'))"

lemma wait_for_message_shorter:
  "wait_for_message reads polls = Some (Inr (d, reads', polls')) \<Longrightarrow> length reads' < length reads"
proof (induction reads arbitrary: polls)
  case Nil
  then show ?case by simp
next
  case (Cons r reads)
  obtain nb errno bytes where r: "r = (nb, errno, bytes)" by (cases r)
  from Cons.prems show ?case
    unfolding r
    by (auto split: if_splits option.splits sum.splits dest!: Cons.IH)
qed

subsection \<open>The daemon loop\<close>

text \<open>
  The \<^verbatim>\<open>while (1)\<close> loop of \<^verbatim>\<open>main\<close>: apply the target, stop when nothing is taken,
  otherwise wait for the next message. \<open>envs k\<close> is the operating system during the
  \<open>k\<close>-th application. \<open>Finished\<close> is the \<^verbatim>\<open>break\<close>; closing the pipe and removing the
  endpoint, which follow the loop, are not part of the model.
\<close>

datatype daemon_end = Finished wastebin | Aborted abort wastebin

function daemon ::
  "(nat \<Rightarrow> env) \<Rightarrow> nat \<Rightarrow> desired \<Rightarrow> read_reply list \<Rightarrow> poll_reply list \<Rightarrow> wastebin
     \<Rightarrow> daemon_end option" where
  "daemon envs k d reads polls s =
     (case converge (envs k) d s of
        Inl (a, s') \<Rightarrow> Some (Aborted a s')
      | Inr s' \<Rightarrow>
         if wastebin_cpus_taken s' = 0 \<and> wastebin_memory_taken s' = 0 then Some (Finished s')
         else (case wait_for_message reads polls of
                 None \<Rightarrow> None
               | Some (Inl a) \<Rightarrow> Some (Aborted a s')
               | Some (Inr (d', reads', polls')) \<Rightarrow> daemon envs (k + 1) d' reads' polls' s'))"
  by pat_completeness auto
termination
  by (relation "measure (\<lambda>(envs, k, d, reads, polls, s). length reads)")
     (auto dest: wait_for_message_shorter)

declare daemon.simps [simp del]

text \<open>
  The state the daemon starts from: the static initialisers of the globals, with
  \<^verbatim>\<open>cpus_online\<close> and \<^verbatim>\<open>wastebin_max_size\<close> as \<^verbatim>\<open>inventory_cpus\<close> and
  \<^verbatim>\<open>inventory_memory\<close> set them.
\<close>

definition after_inventory :: "cpu_states \<Rightarrow> int \<Rightarrow> wastebin" where
  "after_inventory online max_size =
     \<lparr>cpus_online = online, cpus_taken = (\<lambda>i. False), wastebin_cpus_taken = 0,
      wastebin_memory_taken = 0, wastebin_max_size = max_size, issued = []\<rparr>"

subsection \<open>The rendezvous at start-up\<close>

text \<open>
  The \<^verbatim>\<open>mkfifo\<close> block of \<^verbatim>\<open>main\<close>. \<open>made\<close> is the pair of the value \<^verbatim>\<open>mkfifo\<close> returned
  and the \<^verbatim>\<open>errno\<close> it left, \<open>pipefd\<close> the value of \<^verbatim>\<open>open\<close>, \<open>written\<close> the value of
  \<^verbatim>\<open>write\<close>, which the code stores in \<^verbatim>\<open>nb\<close> and never reads.
\<close>

datatype pipe_op = Pipe_write desired | Pipe_close

datatype startup =
    Return_status int    \<comment> \<open>\<^verbatim>\<open>return\<close> from \<^verbatim>\<open>main\<close> with this exit status\<close>
  | Startup_abort abort
  | Become_daemon bool   \<comment> \<open>\<open>False\<close>: reusing an endpoint that existed already\<close>

definition rendezvous :: "desired \<Rightarrow> int \<times> int \<Rightarrow> int \<Rightarrow> int \<Rightarrow> startup \<times> pipe_op list" where
  "rendezvous d made pipefd written =
     (if fst made < 0 then
        (if snd made = EEXIST then
           (if 0 \<le> pipefd then (let nb = written in (Return_status 0, [Pipe_write d, Pipe_close]))
            else (Become_daemon False, []))
         else (Startup_abort (Fail_exit ''Getting pipe''), []))
      else (Become_daemon True, []))"

subsection \<open>The range-list parser\<close>

text \<open>
  \<^verbatim>\<open>parse_sysfs_cpu_set\<close> scans the text with \<^verbatim>\<open>sscanf\<close>. The model of the two format
  strings follows ISO C for the directives used: \<^verbatim>\<open>%u\<close> skips white space, accepts an
  optional sign and needs at least one decimal digit; \<^verbatim>\<open>%n\<close> stores the number of
  characters consumed so far; \<^verbatim>\<open>%1[,-]\<close> takes exactly one character of the set and
  \<^verbatim>\<open>%[,]\<close> the longest non-empty run of commas, neither skipping white space. A number
  that does not fit is converted as glibc does: \<^verbatim>\<open>strtoul\<close> saturates at \<open>ULONG_MAX\<close>,
  negates a number with a minus sign modulo \<open>2 ^ 64\<close>, and the store keeps the low 32 bits.
\<close>

definition isspace :: "char \<Rightarrow> bool" where
  "isspace c = (c = CHR '' '' \<or> (9 \<le> (of_char c :: nat) \<and> (of_char c :: nat) \<le> 13))"

definition isdigit :: "char \<Rightarrow> bool" where
  "isdigit c = (48 \<le> (of_char c :: nat) \<and> (of_char c :: nat) \<le> 57)"

definition digits_value :: "string \<Rightarrow> nat" where
  "digits_value ds = foldl (\<lambda>acc c. 10 * acc + (of_char c - 48)) 0 ds"

definition ULONG_MAX :: nat where
  "ULONG_MAX = 2 ^ 64 - 1"

definition store_unsigned :: "bool \<Rightarrow> nat \<Rightarrow> nat" where
  "store_unsigned negative v =
     (let ul = (if ULONG_MAX < v then ULONG_MAX
                else if negative then (ULONG_MAX + 1 - v) mod (ULONG_MAX + 1)
                else v)
      in ul mod UINT_MOD)"

datatype conversion = Input_failure | Matching_failure | Converted nat nat

definition scan_unsigned :: "string \<Rightarrow> conversion" where
  "scan_unsigned str =
     (let ws = takeWhile isspace str;
          r1 = dropWhile isspace str
      in if r1 = [] then Input_failure
         else let sgn = (if hd r1 = CHR ''-'' \<or> hd r1 = CHR ''+'' then [hd r1] else []);
                  ds = takeWhile isdigit (drop (length sgn) r1)
              in if ds = [] then Matching_failure
                 else Converted (store_unsigned (sgn = ''-'') (digits_value ds))
                                (length ws + length sgn + length ds))"

text \<open>
  What a call of \<^verbatim>\<open>sscanf\<close> returns and stores: \<open>Np_EOF\<close> and \<open>Np_0\<close> store nothing,
  \<open>Np_1 u nd\<close> is the return value 1 with the number and the first \<^verbatim>\<open>%n\<close>, and
  \<open>Np_2 u nd c past end\<close> the return value 2, with the characters the bracket directive
  matched as well, \<open>c\<close> the first of them and \<open>past\<close> the others, and the second \<^verbatim>\<open>%n\<close>.
  The bracket directive stores the characters it matched and a terminating NUL, one
  after the other, from the address it is given.
\<close>

datatype scanned = Np_EOF | Np_0 | Np_1 nat nat | Np_2 nat nat char string nat

text \<open>\<^verbatim>\<open>sscanf(str, "%u%n%1[,-]%n", &u, &nd, &c, &end)\<close>\<close>

definition sscanf_u_sep :: "string \<Rightarrow> scanned" where
  "sscanf_u_sep str =
     (case scan_unsigned str of
        Input_failure \<Rightarrow> Np_EOF
      | Matching_failure \<Rightarrow> Np_0
      | Converted u nd \<Rightarrow>
         (case drop nd str of
            [] \<Rightarrow> Np_1 u nd
          | c # rest \<Rightarrow>
             if c = CHR '','' \<or> c = CHR ''-'' then Np_2 u nd c [] (nd + 1) else Np_1 u nd))"

text \<open>\<^verbatim>\<open>sscanf(str, "%u%n%[,]%n", &ul, &nl, &c, &nle)\<close>\<close>

definition sscanf_u_commas :: "string \<Rightarrow> scanned" where
  "sscanf_u_commas str =
     (case scan_unsigned str of
        Input_failure \<Rightarrow> Np_EOF
      | Matching_failure \<Rightarrow> Np_0
      | Converted ul nl \<Rightarrow>
         (let commas = takeWhile (\<lambda>c. c = CHR '','') (drop nl str)
          in if commas = [] then Np_1 ul nl
             else Np_2 ul nl (hd commas) (tl commas) (nl + length commas)))"

text \<open>
  Both calls pass \<^verbatim>\<open>&c\<close> to the bracket directive, and \<^verbatim>\<open>c\<close> is a single \<^verbatim>\<open>char\<close>: the first
  character matched is stored in \<^verbatim>\<open>c\<close>, the others and the NUL at the addresses after it.
  The block declares \<^verbatim>\<open>unsigned u, ul; char c;\<close>. The model fixes the frame in which the
  four bytes of \<^verbatim>\<open>ul\<close> follow \<^verbatim>\<open>c\<close>, least significant byte first: the bytes stored after
  \<^verbatim>\<open>c\<close> replace the low bytes of \<^verbatim>\<open>ul\<close>. \<open>store_past_c past ul\<close> is the value of \<^verbatim>\<open>ul\<close>
  after the characters \<open>past\<close> and the NUL were stored there. A store of more than four
  bytes reaches past \<^verbatim>\<open>ul\<close>, where the model fixes nothing: the result is \<open>None\<close>.
\<close>

definition store_past_c :: "string \<Rightarrow> nat \<Rightarrow> nat option" where
  "store_past_c past ul =
     (let bytes = map of_char past @ [0 :: nat];
          n = length bytes
      in if 4 < n then None
         else Some (ul div 256 ^ n * 256 ^ n + foldr (\<lambda>b v. b + 256 * v) bytes 0))"

text \<open>The string a \<^verbatim>\<open>char *\<close> points to ends before the first NUL byte.\<close>

definition c_string :: "string \<Rightarrow> string" where
  "c_string bytes = takeWhile (\<lambda>c. c \<noteq> CHR 0x00) bytes"

text \<open>\<^verbatim>\<open>if (u < max_cpu_count) cpu_states[u] = 1\<close>\<close>

definition mark_cpu :: "nat \<Rightarrow> cpu_states \<Rightarrow> cpu_states" where
  "mark_cpu u cpu_states = (if u < max_cpu_count then cpu_states(u := True) else cpu_states)"

text \<open>
  \<^verbatim>\<open>if (u < max_cpu_count && ul < max_cpu_count)
    for (unsigned i = u; i <= ul; i++) cpu_states[i] = 1\<close>
\<close>

definition mark_cpus :: "nat \<Rightarrow> nat \<Rightarrow> cpu_states \<Rightarrow> cpu_states" where
  "mark_cpus u ul cpu_states =
     (if u < max_cpu_count \<and> ul < max_cpu_count
      then fold (\<lambda>i cs. cs(i := True)) [u..<Suc ul] cpu_states
      else cpu_states)"

text \<open>
  One pass through the body of the \<^verbatim>\<open>do\<close> loop: either the function returns after its
  diagnostic (\<open>Give_up\<close>, with the offset the diagnostic prints), or a store through
  \<^verbatim>\<open>&c\<close> reaches past \<^verbatim>\<open>ul\<close> (\<open>Overrun\<close>), or the body ends with a new offset \<^verbatim>\<open>nxt\<close>,
  the bytes of \<^verbatim>\<open>ul\<close> and new flags. \<open>ul0\<close> is what the bytes of \<^verbatim>\<open>ul\<close> hold when the pass
  begins; C gives them no value, and the pass reads \<^verbatim>\<open>ul\<close> only after \<^verbatim>\<open>%u\<close> has stored it.
  The first call stores its NUL on the low byte of \<^verbatim>\<open>ul\<close>. In the second call \<^verbatim>\<open>%u\<close>
  stores \<^verbatim>\<open>ul\<close> first, and the bracket directive then stores over it: the range is marked
  with what \<^verbatim>\<open>ul\<close> holds after the call.
\<close>

datatype group = Give_up nat | Overrun | Parsed nat nat cpu_states

definition parse_group :: "string \<Rightarrow> nat \<Rightarrow> nat \<Rightarrow> cpu_states \<Rightarrow> group" where
  "parse_group buf nxt ul0 cpu_states =
     (case sscanf_u_sep (c_string (drop nxt buf)) of
        Np_EOF \<Rightarrow> Give_up nxt
      | Np_0 \<Rightarrow> Give_up nxt
      | Np_1 u nd \<Rightarrow> Parsed (nxt + nd) ul0 (mark_cpu u cpu_states)
      | Np_2 u nd c past end \<Rightarrow>
         (case store_past_c past ul0 of
            None \<Rightarrow> Overrun
          | Some ul1 \<Rightarrow>
             if c = CHR ''-'' then
               (case sscanf_u_commas (c_string (drop (nxt + end) buf)) of
                  Np_EOF \<Rightarrow> Give_up (nxt + end)
                | Np_0 \<Rightarrow> Give_up (nxt + end)
                | Np_1 ul nl \<Rightarrow> Parsed (nxt + end + nl) ul (mark_cpus u ul cpu_states)
                | Np_2 ul nl c' past' nle \<Rightarrow>
                   (case store_past_c past' ul of
                      None \<Rightarrow> Overrun
                    | Some ul' \<Rightarrow> Parsed (nxt + end + nle) ul' (mark_cpus u ul' cpu_states)))
             else Parsed (nxt + end) ul1 (mark_cpu u cpu_states)))"

text \<open>Every pass that does not give up moves the offset forward, inside the text.\<close>

lemma scan_unsigned_consumed:
  "scan_unsigned str = Converted u n \<Longrightarrow> 0 < n \<and> n \<le> length str"
proof -
  assume a: "scan_unsigned str = Converted u n"
  let ?ws = "takeWhile isspace str" and ?r1 = "dropWhile isspace str"
  let ?sgn = "(if hd ?r1 = CHR ''-'' \<or> hd ?r1 = CHR ''+'' then [hd ?r1] else [])"
  let ?ds = "takeWhile isdigit (drop (length ?sgn) ?r1)"
  from a have ds: "?ds \<noteq> []" and n: "n = length ?ws + length ?sgn + length ?ds"
    by (auto simp: scan_unsigned_def Let_def split: if_splits)
  have "length ?ds \<le> length (drop (length ?sgn) ?r1)" by (rule length_takeWhile_le)
  moreover from ds have "drop (length ?sgn) ?r1 \<noteq> []" by (metis takeWhile.simps(1))
  then have "length ?sgn \<le> length ?r1" by (metis drop_all nat_le_linear order.refl)
  ultimately have "length ?sgn + length ?ds \<le> length ?r1" by simp
  moreover have "length ?ws + length ?r1 = length str"
    by (metis length_append takeWhile_dropWhile_id)
  ultimately have "n \<le> length str" using n by linarith
  moreover from ds n have "0 < n" by simp
  ultimately show ?thesis by simp
qed

lemma length_c_string: "length (c_string bs) \<le> length bs"
  unfolding c_string_def by (rule length_takeWhile_le)

lemma parse_group_advances:
  assumes "parse_group buf nxt ul0 cs = Parsed nxt' ul' cs'"
  shows "nxt < nxt' \<and> nxt' \<le> length buf"
proof -
  let ?s1 = "c_string (drop nxt buf)"
  have l1: "length ?s1 \<le> length buf - nxt" using length_c_string[of "drop nxt buf"] by simp
  show ?thesis
  proof (cases "scan_unsigned ?s1")
    case Input_failure
    with assms show ?thesis by (simp add: parse_group_def sscanf_u_sep_def)
  next
    case Matching_failure
    with assms show ?thesis by (simp add: parse_group_def sscanf_u_sep_def)
  next
    case (Converted u nd)
    from scan_unsigned_consumed[OF Converted] have nd: "0 < nd" "nd \<le> length ?s1" by auto
    show ?thesis
    proof (cases "sscanf_u_sep ?s1")
      case Np_EOF
      with assms show ?thesis by (simp add: parse_group_def)
    next
      case Np_0
      with assms show ?thesis by (simp add: parse_group_def)
    next
      case (Np_1 u' nd')
      with Converted have "nd' = nd"
        by (auto simp: sscanf_u_sep_def split: list.splits if_splits)
      with assms Np_1 nd l1 show ?thesis by (auto simp: parse_group_def)
    next
      case (Np_2 u' nd' c past e)
      with Converted have e: "e = nd + 1" and ne: "drop nd ?s1 \<noteq> []"
        by (auto simp: sscanf_u_sep_def split: list.splits if_splits)
      from ne have "nd < length ?s1" by simp
      with e l1 have e_le: "0 < e" "nxt + e \<le> length buf" by auto
      show ?thesis
      proof (cases "store_past_c past ul0")
        case None
        with assms Np_2 show ?thesis by (simp add: parse_group_def)
      next
        case (Some ul1)
        show ?thesis
        proof (cases "c = CHR ''-''")
          case False
          with assms Np_2 Some e_le show ?thesis by (auto simp: parse_group_def)
        next
          case True
          let ?s2 = "c_string (drop (nxt + e) buf)"
          have l2: "length ?s2 \<le> length buf - (nxt + e)"
            using length_c_string[of "drop (nxt + e) buf"] by simp
          show ?thesis
          proof (cases "scan_unsigned ?s2")
            case Input_failure
            with assms Np_2 Some True show ?thesis
              by (simp add: parse_group_def sscanf_u_commas_def)
          next
            case Matching_failure
            with assms Np_2 Some True show ?thesis
              by (simp add: parse_group_def sscanf_u_commas_def)
          next
            case c2: (Converted ul nl)
            from scan_unsigned_consumed[OF c2] have nl: "0 < nl" "nl \<le> length ?s2" by auto
            let ?commas = "takeWhile (\<lambda>c. c = CHR '','') (drop nl ?s2)"
            have "length ?commas \<le> length (drop nl ?s2)" by (rule length_takeWhile_le)
            then have lc: "nl + length ?commas \<le> length ?s2" using nl by simp
            from assms Np_2 Some True c2
            have "nxt' = nxt + e + nl \<or> nxt' = nxt + e + (nl + length ?commas)"
              by (auto simp: parse_group_def sscanf_u_commas_def Let_def
                       split: if_splits option.splits)
            with lc nl l2 e_le show ?thesis by auto
          qed
        qed
      qed
    qed
  qed
qed

text \<open>
  The \<^verbatim>\<open>do ... while (nxt != nb && buf[nxt] != '\n')\<close> loop, with \<^verbatim>\<open>nb\<close> the length of the
  text read. The locals of the block have the same place in the frame in every pass, so
  the bytes of \<^verbatim>\<open>ul\<close> go from one pass to the next. The result is the flags and how the
  function ended: the loop ended (\<open>List_end\<close>), the function returned after its diagnostic
  (\<open>Gave_up\<close>, with the offset printed), or a store reached past \<^verbatim>\<open>ul\<close> (\<open>Past_ul\<close>, with
  the flags as they were then).
\<close>

datatype parse_end = List_end | Gave_up nat | Past_ul

function parse_groups :: "string \<Rightarrow> nat \<Rightarrow> nat \<Rightarrow> cpu_states \<Rightarrow> cpu_states \<times> parse_end" where
  "parse_groups buf nxt ul0 cpu_states =
     (case parse_group buf nxt ul0 cpu_states of
        Give_up at \<Rightarrow> (cpu_states, Gave_up at)
      | Overrun \<Rightarrow> (cpu_states, Past_ul)
      | Parsed nxt' ul' cpu_states' \<Rightarrow>
         if nxt' \<noteq> length buf \<and> buf ! nxt' \<noteq> CHR 0x0A
         then parse_groups buf nxt' ul' cpu_states'
         else (cpu_states', List_end))"
  by pat_completeness auto
termination
proof (relation "measure (\<lambda>(buf, nxt, ul0, cpu_states). length buf - nxt)")
  show "wf (measure (\<lambda>(buf, nxt, ul0, cpu_states). length buf - nxt))" by simp
next
  fix buf nxt ul0 cpu_states nxt' x32 ul' cpu_states'
  assume "parse_group buf nxt ul0 cpu_states = Parsed nxt' ul' cpu_states'"
  from parse_group_advances[OF this]
  show "((buf, nxt', ul', cpu_states'), (buf, nxt, ul0, cpu_states))
        \<in> measure (\<lambda>(buf, nxt, ul0, cpu_states). length buf - nxt)"
    by auto
qed

declare parse_groups.simps [simp del]

text \<open>
  \<^verbatim>\<open>parse_sysfs_cpu_set\<close> from the contents of the file on: \<^verbatim>\<open>read\<close> delivers at most
  4096 bytes, and a read that fills the buffer makes the function return at once. (When
  the file cannot be opened the function returns before it reads, and the flags stay as
  they were.) \<open>ul0\<close> is what the bytes of \<^verbatim>\<open>ul\<close> hold when the loop is entered.
\<close>

definition parse_sysfs_cpu_set :: "string \<Rightarrow> nat \<Rightarrow> cpu_states \<Rightarrow> cpu_states \<times> parse_end" where
  "parse_sysfs_cpu_set contents ul0 cpu_states =
     (if 4096 \<le> length contents then (cpu_states, List_end)
      else parse_groups contents 0 ul0 cpu_states)"

subsection \<open>Properties of states and sessions\<close>

text \<open>
  \<open>Online\<close> and \<open>Taken\<close> share no CPU of the index domain.
\<close>

definition online_taken_disjoint :: "wastebin \<Rightarrow> bool" where
  "online_taken_disjoint s =
     list_all (\<lambda>i. \<not> (cpus_online s i \<and> cpus_taken s i)) [0..<max_cpu_count]"

text \<open>
  The CPU transitions among the operations issued, in order: the CPU and the digit written.
\<close>

fun toggle_of :: "effect \<Rightarrow> (nat \<times> bool) list" where
  "toggle_of (Cpu_state cpu online_state) = [(cpu, online_state)]"
| "toggle_of other = []"

definition cpu_toggles :: "wastebin \<Rightarrow> (nat \<times> bool) list" where
  "cpu_toggles s = concat (map toggle_of (issued s))"

text \<open>
  An operating system in which every write to a CPU control file succeeds (\<^verbatim>\<open>open\<close>
  gives a descriptor, \<^verbatim>\<open>write\<close> returns 1), and one in which every \<^verbatim>\<open>mlock\<close> returns 0.
\<close>

definition toggles_succeed :: "env \<Rightarrow> bool" where
  "toggles_succeed e =
     (\<forall>cpu online_state. 0 \<le> fst (cpu_file e cpu online_state) \<and>
                          snd (cpu_file e cpu online_state) = 1)"

definition locks_succeed :: "env \<Rightarrow> bool" where
  "locks_succeed e = (\<forall>off len. fst (mlock_reply e off len) = 0)"

text \<open>
  A session: the states reached from a first state by successive completed
  applications of targets, each under an operating system of its own.
\<close>

inductive session :: "wastebin \<Rightarrow> wastebin \<Rightarrow> bool" where
  session_start: "session s s"
| session_next: "session s t \<Longrightarrow> converge e d t = Inr t' \<Longrightarrow> session s t'"

text \<open>
  The invariant behind the order of release. As long as no CPU was ever taken, none is
  taken. Afterwards the first transition took some CPU \<open>c\<close> offline; \<open>c\<close> is the highest
  index in \<open>Online \<union> Taken\<close>; it is taken whenever any CPU is; and when none is, the last
  transition put \<open>c\<close> back online.
\<close>

definition first_taken_stays :: "cpu_states \<Rightarrow> cpu_states \<Rightarrow> (nat \<times> bool) list \<Rightarrow> bool" where
  "first_taken_stays on tk T \<longleftrightarrow>
     (\<forall>i<max_cpu_count. \<not> (on i \<and> tk i)) \<and>
     (T = [] \<longrightarrow> (\<forall>i<max_cpu_count. \<not> tk i)) \<and>
     (T \<noteq> [] \<longrightarrow>
        (\<exists>c<max_cpu_count. hd T = (c, False) \<and> (on c \<or> tk c) \<and>
           (\<forall>i<max_cpu_count. on i \<or> tk i \<longrightarrow> i \<le> c) \<and>
           ((\<exists>i<max_cpu_count. tk i) \<longrightarrow> tk c) \<and>
           ((\<forall>i<max_cpu_count. \<not> tk i) \<longrightarrow> last T = (c, True))))"

definition lifo_inv :: "wastebin \<Rightarrow> bool" where
  "lifo_inv s = first_taken_stays (cpus_online s) (cpus_taken s) (cpu_toggles s)"

text \<open>
  The order of selection in the specification's words: \<open>Online\<close> from the highest index
  downward and \<open>Taken\<close> from the lowest index upward; and the CPUs an adjustment to
  \<open>ncpus\<close> is to pick from them: as many as the target exceeds the counter of CPUs taken,
  or as many as the counter exceeds the target.
\<close>

definition online_downward :: "wastebin \<Rightarrow> nat list" where
  "online_downward s = rev (filter (cpus_online s) [0..<max_cpu_count])"

definition taken_upward :: "wastebin \<Rightarrow> nat list" where
  "taken_upward s = filter (cpus_taken s) [0..<max_cpu_count]"

definition picked_to_take :: "nat \<Rightarrow> wastebin \<Rightarrow> nat list" where
  "picked_to_take ncpus s = take (ncpus - wastebin_cpus_taken s) (online_downward s)"

definition picked_to_release :: "nat \<Rightarrow> wastebin \<Rightarrow> nat list" where
  "picked_to_release ncpus s = take (wastebin_cpus_taken s - ncpus) (taken_upward s)"

subsection \<open>Concrete machines and targets\<close>

text \<open>
  The scenario of the specification: a machine with CPUs 0 to 7 online and 8 GiB of
  memory, the target (2 GiB, 2 CPUs), then the target (0, 0); with the states the daemon
  is in after each step, and between the two adjusters of the second. Beside it a machine with CPU 0 alone, a registry in which no
  CPU was seen online (the inventory file could not be opened), a machine on which CPUs
  1 to 3 are online and CPU 0 is not, with the state in which all three are taken, and
  two operating systems
  that refuse \<^verbatim>\<open>mlock\<close>, one with \<^verbatim>\<open>EPERM\<close> and one with \<^verbatim>\<open>ENOMEM\<close> (12 on Linux).
\<close>

definition ENOMEM :: int where
  "ENOMEM = 12"

definition replies_ok :: env where
  "replies_ok = \<lparr>cpu_file = (\<lambda>cpu online_state. (3, 1)), mlock_reply = (\<lambda>off len. (0, 0))\<rparr>"

definition no_cap_ipc_lock :: env where
  "no_cap_ipc_lock =
     \<lparr>cpu_file = (\<lambda>cpu online_state. (3, 1)), mlock_reply = (\<lambda>off len. (- 1, EPERM))\<rparr>"

definition lock_limit_reached :: env where
  "lock_limit_reached =
     \<lparr>cpu_file = (\<lambda>cpu online_state. (3, 1)), mlock_reply = (\<lambda>off len. (- 1, ENOMEM))\<rparr>"

definition cpus_upto :: "nat \<Rightarrow> cpu_states" where
  "cpus_upto n = (\<lambda>i. i < n)"

definition two_gib_locked :: wastebin where
  "two_gib_locked =
     \<lparr>cpus_online = cpus_upto 8, cpus_taken = (\<lambda>i. False), wastebin_cpus_taken = 0,
      wastebin_memory_taken = 2147483648, wastebin_max_size = 8589934592,
      issued = [Mlock 0 2147483648]\<rparr>"

definition eight_cpus :: wastebin where
  "eight_cpus = after_inventory (cpus_upto 8) 8589934592"

definition two_gib_two_cpus :: desired where
  "two_gib_two_cpus = \<lparr>membytes = 2147483648, cpus = 2\<rparr>"

definition nothing :: desired where
  "nothing = \<lparr>membytes = 0, cpus = 0\<rparr>"

definition two_taken :: wastebin where
  "two_taken =
     \<lparr>cpus_online = (cpus_upto 8)(7 := False, 6 := False),
      cpus_taken = (\<lambda>i. False)(7 := True, 6 := True),
      wastebin_cpus_taken = 2, wastebin_memory_taken = 0, wastebin_max_size = 8589934592,
      issued = [Cpu_state 7 False, Cpu_state 6 False]\<rparr>"

definition scenario_applied :: wastebin where
  "scenario_applied =
     \<lparr>cpus_online = (cpus_upto 8)(7 := False, 6 := False),
      cpus_taken = (\<lambda>i. False)(7 := True, 6 := True),
      wastebin_cpus_taken = 2, wastebin_memory_taken = 2147483648,
      wastebin_max_size = 8589934592,
      issued = [Cpu_state 7 False, Cpu_state 6 False, Mlock 0 2147483648]\<rparr>"

definition two_released :: wastebin where
  "two_released =
     \<lparr>cpus_online = cpus_upto 8,
      cpus_taken = (\<lambda>i. False),
      wastebin_cpus_taken = 0, wastebin_memory_taken = 2147483648,
      wastebin_max_size = 8589934592,
      issued = [Cpu_state 7 False, Cpu_state 6 False, Mlock 0 2147483648,
                Cpu_state 6 True, Cpu_state 7 True]\<rparr>"

definition scenario_drained :: wastebin where
  "scenario_drained =
     \<lparr>cpus_online = cpus_upto 8,
      cpus_taken = (\<lambda>i. False),
      wastebin_cpus_taken = 0, wastebin_memory_taken = 0,
      wastebin_max_size = 8589934592,
      issued = [Cpu_state 7 False, Cpu_state 6 False, Mlock 0 2147483648,
                Cpu_state 6 True, Cpu_state 7 True,
                Munlock 0 2147483648, Madvise_dontneed 0 2147483648]\<rparr>"

definition one_cpu :: wastebin where
  "one_cpu = after_inventory (cpus_upto 1) 8589934592"

definition take_one :: desired where
  "take_one = \<lparr>membytes = 0, cpus = 1\<rparr>"

definition no_cpus_seen :: wastebin where
  "no_cpus_seen = after_inventory (cpus_upto 0) 8589934592"

definition cpu0_offline :: wastebin where
  "cpu0_offline = after_inventory ((cpus_upto 4)(0 := False)) 8589934592"

definition all_three_taken :: wastebin where
  "all_three_taken =
     \<lparr>cpus_online = (cpus_upto 4)(0 := False, 3 := False, 2 := False, 1 := False),
      cpus_taken = (\<lambda>i. False)(3 := True, 2 := True, 1 := True),
      wastebin_cpus_taken = 0, wastebin_memory_taken = 0, wastebin_max_size = 8589934592,
      issued = [Cpu_state 3 False, Cpu_state 2 False, Cpu_state 1 False]\<rparr>"

subsection \<open>Range-list texts as the specification describes them\<close>

text \<open>
  The specification's input format: a comma-separated list of single ids and \<open>lo-hi\<close>
  ranges, ended by a newline or by the end of the input. An item list is written out with
  the ids in decimal, as the kernel writes them. \<open>item_fits\<close> says that the ids of an item
  fit an \<^verbatim>\<open>unsigned\<close>; \<open>item_ids\<close> is the set of ids an item marks: a single id below
  \<open>max_cpu_count\<close>, and all ids of a range when both of its ends are below \<open>max_cpu_count\<close>.
  \<open>commas_harmless\<close> describes the lists on which the bytes that \<^verbatim>\<open>sscanf\<close> stores past
  \<^verbatim>\<open>c\<close> change nothing: the NUL after a comma falls on the low byte of \<^verbatim>\<open>ul\<close>, so a range
  inside the index domain that is followed by a comma has to end at a multiple of 256.
\<close>

datatype item = Single nat | Range nat nat

definition digit_char :: "nat \<Rightarrow> char" where
  "digit_char d = ''0123456789'' ! d"

fun decimal :: "nat \<Rightarrow> string" where
  "decimal n = (if n < 10 then [digit_char n] else decimal (n div 10) @ [digit_char (n mod 10)])"

declare decimal.simps [simp del]

fun item_text :: "item \<Rightarrow> string" where
  "item_text (Single u) = decimal u"
| "item_text (Range lo hi) = decimal lo @ ''-'' @ decimal hi"

fun range_list_text :: "item list \<Rightarrow> string" where
  "range_list_text [] = []"
| "range_list_text [x] = item_text x"
| "range_list_text (x # y # ys) = item_text x @ '','' @ range_list_text (y # ys)"

fun item_fits :: "item \<Rightarrow> bool" where
  "item_fits (Single u) = (u < UINT_MOD)"
| "item_fits (Range lo hi) = (lo < UINT_MOD \<and> hi < UINT_MOD)"

fun item_ids :: "item \<Rightarrow> nat set" where
  "item_ids (Single u) = (if u < max_cpu_count then {u} else {})"
| "item_ids (Range lo hi) = (if lo < max_cpu_count \<and> hi < max_cpu_count then {lo..hi} else {})"

fun survives_comma :: "item \<Rightarrow> bool" where
  "survives_comma (Single u) = True"
| "survives_comma (Range lo hi) = (hi mod 256 = 0 \<or> max_cpu_count \<le> lo \<or> max_cpu_count \<le> hi)"

fun commas_harmless :: "item list \<Rightarrow> bool" where
  "commas_harmless [] = True"
| "commas_harmless [x] = True"
| "commas_harmless (x # y # ys) = (survives_comma x \<and> commas_harmless (y # ys))"

text \<open>
  What the parser's marking statements do for one item, the empty flag array, the set
  of CPUs an array marks, and an item list with ids and ranges on both sides of
  \<open>max_cpu_count\<close>.
\<close>

fun mark_item :: "item \<Rightarrow> cpu_states \<Rightarrow> cpu_states" where
  "mark_item (Single u) cs = mark_cpu u cs"
| "mark_item (Range lo hi) cs = mark_cpus lo hi cs"

definition no_flags :: cpu_states where
  "no_flags = (\<lambda>i. False)"

definition marked :: "cpu_states \<Rightarrow> nat set" where
  "marked cpu_states = {i. i < max_cpu_count \<and> cpu_states i}"

definition mixed_items :: "item list" where
  "mixed_items = [Single 1000, Range 0 256, Single 5000, Range 4094 4099, Range 300 303]"

section \<open>Lemmas\<close>

lemma online_taken_disjoint_iff:
  "online_taken_disjoint s \<longleftrightarrow> (\<forall>i<max_cpu_count. \<not> (cpus_online s i \<and> cpus_taken s i))"
  by (auto simp: online_taken_disjoint_def list_all_iff)

lemma count_upto: "(\<Sum>i\<leftarrow>[0..<n]. if cs i then 1 else 0) = card {i. i < n \<and> cs i}"
proof (induction n)
  case 0 show ?case by simp
next
  case (Suc n)
  have fin: "finite {i. i < n \<and> cs i}" by simp
  show ?case
  proof (cases "cs n")
    case True
    then have "{i. i < Suc n \<and> cs i} = insert n {i. i < n \<and> cs i}" by (auto simp: less_Suc_eq)
    then show ?thesis using Suc True by simp
  next
    case False
    then have "{i. i < Suc n \<and> cs i} = {i. i < n \<and> cs i}" by (auto simp: less_Suc_eq)
    then show ?thesis using Suc False by simp
  qed
qed

lemma count_cpu_set_card: "count_cpu_set cs = card {i. i < max_cpu_count \<and> cs i}"
  unfolding count_cpu_set_def by (rule count_upto)

lemma count_cpu_set_empty: "count_cpu_set (\<lambda>i. False) = 0"
  by (simp add: count_cpu_set_card)

lemma count_cpu_set_mark:
  assumes "i < max_cpu_count" "\<not> cs i"
  shows "count_cpu_set (cs(i := True)) = Suc (count_cpu_set cs)"
proof -
  have "{j. j < max_cpu_count \<and> (cs(i := True)) j} = insert i {j. j < max_cpu_count \<and> cs j}"
    using assms by auto
  then show ?thesis using assms by (simp add: count_cpu_set_card)
qed

lemma count_cpu_set_clear:
  assumes "i < max_cpu_count" "cs i"
  shows "Suc (count_cpu_set (cs(i := False))) = count_cpu_set cs"
proof -
  have "{j. j < max_cpu_count \<and> cs j} = insert i {j. j < max_cpu_count \<and> (cs(i := False)) j}"
    using assms by auto
  then show ?thesis by (simp add: count_cpu_set_card)
qed

lemma scan_last_online_0: "scan_last_online online 0 = Inl (Out_of_bounds (UINT_MOD - 1))"
  by (subst scan_last_online.simps) (simp add: UINT_MOD_def max_cpu_count_def)

lemma scan_last_online_Suc:
  "lo < max_cpu_count \<Longrightarrow>
   scan_last_online online (Suc lo) = (if online lo then Inr lo else scan_last_online online lo)"
  by (subst scan_last_online.simps) (simp add: UINT_MOD_def max_cpu_count_def)

lemma scan_last_online_Inr:
  "scan_last_online online lo = Inr k \<Longrightarrow> lo \<le> max_cpu_count \<Longrightarrow>
     k < lo \<and> online k \<and> (\<forall>j. k < j \<and> j < lo \<longrightarrow> \<not> online j)"
proof (induction lo)
  case 0
  then show ?case by (simp add: scan_last_online_0)
next
  case (Suc lo)
  then have lt: "lo < max_cpu_count" by simp
  show ?case
  proof (cases "online lo")
    case True
    with Suc.prems lt show ?thesis by (auto simp: scan_last_online_Suc)
  next
    case False
    with Suc.prems lt have "scan_last_online online lo = Inr k"
      by (simp add: scan_last_online_Suc)
    with Suc.IH lt have "k < lo \<and> online k \<and> (\<forall>j. k < j \<and> j < lo \<longrightarrow> \<not> online j)" by simp
    with False show ?thesis by (auto simp: less_Suc_eq)
  qed
qed

lemma scan_last_online_Inl:
  "scan_last_online online lo = Inl a \<Longrightarrow> lo \<le> max_cpu_count \<Longrightarrow>
     a = Out_of_bounds (UINT_MOD - 1) \<and> (\<forall>j<lo. \<not> online j)"
proof (induction lo)
  case 0
  then show ?case by (simp add: scan_last_online_0)
next
  case (Suc lo)
  then have lt: "lo < max_cpu_count" by simp
  with Suc.prems have nlo: "\<not> online lo" and "scan_last_online online lo = Inl a"
    by (auto simp: scan_last_online_Suc split: if_splits)
  with Suc.IH lt have "a = Out_of_bounds (UINT_MOD - 1) \<and> (\<forall>j<lo. \<not> online j)" by simp
  with nlo show ?case by (auto simp: less_Suc_eq)
qed

lemma scan_first_taken_Inr:
  "scan_first_taken taken ft = Inr k \<Longrightarrow>
     ft \<le> k \<and> k < max_cpu_count \<and> taken k \<and> (\<forall>j. ft \<le> j \<and> j < k \<longrightarrow> \<not> taken j)"
proof (induction taken ft rule: scan_first_taken.induct)
  case (1 taken ft)
  from "1.prems" have inb: "\<not> max_cpu_count \<le> ft"
    by (subst (asm) scan_first_taken.simps) (simp split: if_splits)
  show ?case
  proof (cases "taken ft")
    case True
    with "1.prems" inb show ?thesis
      by (subst (asm) scan_first_taken.simps) auto
  next
    case False
    with "1.prems" inb have "scan_first_taken taken (ft + 1) = Inr k"
      by (subst (asm) scan_first_taken.simps) simp
    from "1.IH"[OF inb False this]
    have ih: "ft + 1 \<le> k" "k < max_cpu_count" "taken k" "\<forall>j. ft + 1 \<le> j \<and> j < k \<longrightarrow> \<not> taken j"
      by auto
    have split: "\<And>j. ft \<le> j \<Longrightarrow> j = ft \<or> ft + 1 \<le> j" by auto
    from ih(1) have "ft \<le> k" by simp
    with ih False split show ?thesis by blast
  qed
qed

lemma scan_first_taken_Inl:
  "scan_first_taken taken ft = Inl a \<Longrightarrow> (\<forall>j. ft \<le> j \<and> j < max_cpu_count \<longrightarrow> \<not> taken j)"
proof (induction taken ft rule: scan_first_taken.induct)
  case (1 taken ft)
  show ?case
  proof (cases "max_cpu_count \<le> ft")
    case True
    then show ?thesis by auto
  next
    case inb: False
    with "1.prems" have nt: "\<not> taken ft" and "scan_first_taken taken (ft + 1) = Inl a"
      by (subst (asm) scan_first_taken.simps; simp split: if_splits)+
    from "1.IH"[OF inb nt this(2)]
    have ih: "\<forall>j. ft + 1 \<le> j \<and> j < max_cpu_count \<longrightarrow> \<not> taken j" .
    have split: "\<And>j. ft \<le> j \<Longrightarrow> j = ft \<or> ft + 1 \<le> j" by auto
    from ih nt split show ?thesis by blast
  qed
qed

lemma set_cpu_online_state_Inr:
  "set_cpu_online_state e c b s = Inr s' \<Longrightarrow> s' = s\<lparr>issued := issued s @ [Cpu_state c b]\<rparr>"
  by (auto simp: set_cpu_online_state_def Let_def split: if_splits)

lemma take_offline_rule:
  assumes run: "take_offline e ncpus n lo s = Inr (n', s')"
    and init: "I n lo s"
    and step: "\<And>n lo s k. \<lbrakk>I n lo s; n < ncpus; scan_last_online (cpus_online s) lo = Inr k; k \<noteq> 0\<rbrakk>
       \<Longrightarrow> I (n + 1) k (s\<lparr>cpus_online := (cpus_online s)(k := False),
                             cpus_taken := (cpus_taken s)(k := True),
                             issued := issued s @ [Cpu_state k False]\<rparr>)"
  shows "\<exists>lo'. I n' lo' s' \<and> \<not> n' < ncpus"
  using run init step
proof (induction e ncpus n lo s rule: take_offline.induct)
  case (1 e ncpus n_taken last_online s)
  show ?case
  proof (cases "n_taken < ncpus")
    case False
    with "1.prems" show ?thesis
      by (subst (asm) take_offline.simps) auto
  next
    case True
    from "1.prems"(1) True obtain k s1 where
      scan: "scan_last_online (cpus_online s) last_online = Inr k" and k0: "k \<noteq> 0"
      and tog: "set_cpu_online_state e k False
                  (s\<lparr>cpus_online := (cpus_online s)(k := False),
                     cpus_taken := (cpus_taken s)(k := True)\<rparr>) = Inr s1"
      and rec: "take_offline e ncpus (n_taken + 1) k s1 = Inr (n', s')"
      by (subst (asm) take_offline.simps) (auto split: sum.splits if_splits)
    from set_cpu_online_state_Inr[OF tog]
    have s1: "s1 = s\<lparr>cpus_online := (cpus_online s)(k := False),
                     cpus_taken := (cpus_taken s)(k := True),
                     issued := issued s @ [Cpu_state k False]\<rparr>" by simp
    have "I (n_taken + 1) k s1"
      unfolding s1 using "1.prems"(2) True scan k0 by (rule "1.prems"(3))
    from "1.IH"[OF True scan k0 tog rec this "1.prems"(3)] show ?thesis by simp
  qed
qed

lemma put_online_rule:
  assumes run: "put_online e ncpus n ft s = Inr s'"
    and init: "I n ft s"
    and step: "\<And>n ft s k. \<lbrakk>I n ft s; ncpus < n; scan_first_taken (cpus_taken s) ft = Inr k\<rbrakk>
       \<Longrightarrow> I (n - 1) (k + 1) (s\<lparr>cpus_online := (cpus_online s)(k := True),
                             cpus_taken := (cpus_taken s)(k := False),
                             issued := issued s @ [Cpu_state k True]\<rparr>)"
  shows "\<exists>ft'. I (if ncpus < n then ncpus else n) ft' s'"
  using run init step
proof (induction e ncpus n ft s rule: put_online.induct)
  case (1 e ncpus n_taken first_taken s)
  show ?case
  proof (cases "ncpus < n_taken")
    case False
    with "1.prems" show ?thesis
      by (subst (asm) put_online.simps) auto
  next
    case True
    from "1.prems"(1) True obtain k s1 where
      scan: "scan_first_taken (cpus_taken s) first_taken = Inr k"
      and tog: "set_cpu_online_state e k True
                  (s\<lparr>cpus_taken := (cpus_taken s)(k := False),
                     cpus_online := (cpus_online s)(k := True)\<rparr>) = Inr s1"
      and rec: "put_online e ncpus (n_taken - 1) (k + 1) s1 = Inr s'"
      by (subst (asm) put_online.simps) (auto split: sum.splits if_splits)
    from set_cpu_online_state_Inr[OF tog]
    have s1: "s1 = s\<lparr>cpus_online := (cpus_online s)(k := True),
                     cpus_taken := (cpus_taken s)(k := False),
                     issued := issued s @ [Cpu_state k True]\<rparr>" by simp
    have "I (n_taken - 1) (k + 1) s1"
      unfolding s1 using "1.prems"(2) True scan by (rule "1.prems"(3))
    from "1.IH"[OF True scan tog rec this "1.prems"(3)]
    obtain ft' where "I (if ncpus < n_taken - 1 then ncpus else n_taken - 1) ft' s'" ..
    moreover have "(if ncpus < n_taken - 1 then ncpus else n_taken - 1) = ncpus"
      using True by auto
    ultimately show ?thesis using True by auto
  qed
qed

lemma take_offline_disjoint:
  assumes "take_offline e ncpus n lo s = Inr (n', s')" "online_taken_disjoint s"
  shows "online_taken_disjoint s'"
proof -
  from take_offline_rule[where I = "\<lambda>n lo s. online_taken_disjoint s", OF assms]
  show ?thesis by (auto simp: online_taken_disjoint_iff)
qed

lemma put_online_disjoint:
  assumes "put_online e ncpus n ft s = Inr s'" "online_taken_disjoint s"
  shows "online_taken_disjoint s'"
proof -
  from put_online_rule[where I = "\<lambda>n ft s. online_taken_disjoint s", OF assms]
  show ?thesis by (auto simp: online_taken_disjoint_iff)
qed

lemma adjust_cpus_disjoint:
  assumes "adjust_cpus e ncpus s = Inr s'" "online_taken_disjoint s"
  shows "online_taken_disjoint s'"
proof -
  from assms(1) obtain n1 s1 s2 where
    t: "take_offline e ncpus (count_cpu_set (cpus_taken s)) max_cpu_count s = Inr (n1, s1)"
    and p: "put_online e ncpus n1 0 s1 = Inr s2"
    and s': "s' = s2\<lparr>wastebin_cpus_taken := ncpus\<rparr>"
    by (auto simp: adjust_cpus_def Let_def split: if_splits sum.splits prod.splits)
  from put_online_disjoint[OF p take_offline_disjoint[OF t assms(2)]]
  show ?thesis unfolding s' by (simp add: online_taken_disjoint_iff)
qed

lemma adjust_memory_cpus:
  "adjust_memory e mem s = Inr s' \<Longrightarrow>
     cpus_online s' = cpus_online s \<and> cpus_taken s' = cpus_taken s \<and>
     wastebin_cpus_taken s' = wastebin_cpus_taken s \<and> cpu_toggles s' = cpu_toggles s"
  by (auto simp: adjust_memory_def Let_def cpu_toggles_def split: if_splits)

lemma adjust_memory_disjoint:
  "adjust_memory e mem s = Inr s' \<Longrightarrow> online_taken_disjoint s \<Longrightarrow> online_taken_disjoint s'"
  by (drule adjust_memory_cpus) (simp add: online_taken_disjoint_iff)

lemma scan_last_online_eqI:
  assumes "k < lo" "lo \<le> max_cpu_count" "online k" "\<forall>j. k < j \<and> j < lo \<longrightarrow> \<not> online j"
  shows "scan_last_online online lo = Inr k"
proof (cases "scan_last_online online lo")
  case (Inl a)
  from scan_last_online_Inl[OF Inl assms(2)] assms show ?thesis by auto
next
  case (Inr k')
  from scan_last_online_Inr[OF Inr assms(2)]
  have k': "k' < lo" "online k'" "\<forall>j. k' < j \<and> j < lo \<longrightarrow> \<not> online j" by auto
  have "k' = k"
  proof (rule ccontr)
    assume "k' \<noteq> k"
    then consider "k' < k" | "k < k'" by linarith
    then show False using k' assms by cases auto
  qed
  with Inr show ?thesis by simp
qed

lemma scan_last_online_none:
  assumes "lo \<le> max_cpu_count" "\<forall>j<lo. \<not> online j"
  shows "scan_last_online online lo = Inl (Out_of_bounds (UINT_MOD - 1))"
proof (cases "scan_last_online online lo")
  case (Inl a)
  from scan_last_online_Inl[OF Inl assms(1)] Inl show ?thesis by simp
next
  case (Inr k)
  from scan_last_online_Inr[OF Inr assms(1)] assms(2) show ?thesis by auto
qed

lemma scan_first_taken_eqI:
  assumes "ft \<le> k" "k < max_cpu_count" "taken k" "\<forall>j. ft \<le> j \<and> j < k \<longrightarrow> \<not> taken j"
  shows "scan_first_taken taken ft = Inr k"
proof (cases "scan_first_taken taken ft")
  case (Inl a)
  from scan_first_taken_Inl[OF Inl] assms show ?thesis by auto
next
  case (Inr k')
  from scan_first_taken_Inr[OF Inr]
  have k': "ft \<le> k'" "taken k'" "\<forall>j. ft \<le> j \<and> j < k' \<longrightarrow> \<not> taken j" by auto
  have "k' = k"
  proof (rule ccontr)
    assume "k' \<noteq> k"
    then consider "k' < k" | "k < k'" by linarith
    then show False using k' assms by cases auto
  qed
  with Inr show ?thesis by simp
qed

lemma set_cpu_online_state_ok:
  assumes "toggles_succeed e"
  shows "set_cpu_online_state e c b s = Inr (s\<lparr>issued := issued s @ [Cpu_state c b]\<rparr>)"
proof -
  from assms have "0 \<le> fst (cpu_file e c b)" "snd (cpu_file e c b) = 1"
    by (auto simp: toggles_succeed_def)
  then show ?thesis
    by (simp add: set_cpu_online_state_def SIZE_MOD_def Let_def)
qed

lemma take_offline_done: "\<not> n < ncpus \<Longrightarrow> take_offline e ncpus n lo s = Inr (n, s)"
  by (subst take_offline.simps) simp

lemma take_offline_step:
  assumes "n < ncpus" "scan_last_online (cpus_online s) lo = Inr k" "k \<noteq> 0" "toggles_succeed e"
  shows "take_offline e ncpus n lo s =
         take_offline e ncpus (n + 1) k
           (s\<lparr>cpus_online := (cpus_online s)(k := False),
              cpus_taken := (cpus_taken s)(k := True),
              issued := issued s @ [Cpu_state k False]\<rparr>)"
  using assms by (subst take_offline.simps) (simp add: set_cpu_online_state_ok)

lemma put_online_done: "\<not> ncpus < n \<Longrightarrow> put_online e ncpus n ft s = Inr s"
  by (subst put_online.simps) simp

lemma put_online_step:
  assumes "ncpus < n" "scan_first_taken (cpus_taken s) ft = Inr k" "toggles_succeed e"
  shows "put_online e ncpus n ft s =
         put_online e ncpus (n - 1) (k + 1)
           (s\<lparr>cpus_taken := (cpus_taken s)(k := False),
              cpus_online := (cpus_online s)(k := True),
              issued := issued s @ [Cpu_state k True]\<rparr>)"
  using assms by (subst put_online.simps) (simp add: set_cpu_online_state_ok)

lemma take_offline_succeeds:
  assumes "toggles_succeed e"
  shows "lo \<le> max_cpu_count \<Longrightarrow> ncpus - n \<le> card {i. 0 < i \<and> i < lo \<and> cpus_online s i}
         \<Longrightarrow> \<exists>r. take_offline e ncpus n lo s = Inr r"
proof (induction "ncpus - n" arbitrary: n lo s)
  case 0
  then show ?case by (simp add: take_offline_done)
next
  case (Suc m)
  then have lt: "n < ncpus" by simp
  let ?A = "{i. 0 < i \<and> i < lo \<and> cpus_online s i}"
  have fin: "finite ?A" by simp
  from Suc.hyps(2) Suc.prems(2) have "0 < card ?A" by linarith
  then have "?A \<noteq> {}" by (metis card.empty less_nat_zero_code)
  then obtain i where i: "0 < i" "i < lo" "cpus_online s i" by auto
  obtain k where scan: "scan_last_online (cpus_online s) lo = Inr k"
  proof (cases "scan_last_online (cpus_online s) lo")
    case (Inl a)
    from scan_last_online_Inl[OF Inl Suc.prems(1)] i show ?thesis by auto
  next
    case (Inr k)
    then show ?thesis by (rule that)
  qed
  from scan_last_online_Inr[OF scan Suc.prems(1)]
  have k: "k < lo" "cpus_online s k" "\<forall>j. k < j \<and> j < lo \<longrightarrow> \<not> cpus_online s j" by auto
  from k(3) i have ik: "i \<le> k" by (meson not_le)
  with i have k0: "k \<noteq> 0" by simp
  let ?s = "s\<lparr>cpus_online := (cpus_online s)(k := False),
              cpus_taken := (cpus_taken s)(k := True),
              issued := issued s @ [Cpu_state k False]\<rparr>"
  have "?A = insert k {i. 0 < i \<and> i < k \<and> cpus_online ?s i}"
    using k k0 by (auto simp: not_less) (metis le_neq_implies_less not_le)
  moreover have "k \<notin> {i. 0 < i \<and> i < k \<and> cpus_online ?s i}" by simp
  ultimately have "card ?A = Suc (card {i. 0 < i \<and> i < k \<and> cpus_online ?s i})"
    by (simp del: insert_iff)
  with Suc.prems(2) Suc.hyps(2) have c: "ncpus - (n + 1) \<le> card {i. 0 < i \<and> i < k \<and> cpus_online ?s i}"
    by simp
  have m: "m = ncpus - (n + 1)" using Suc.hyps(2) by simp
  from k(1) Suc.prems(1) have "k \<le> max_cpu_count" by simp
  from Suc.hyps(1)[OF m this c] take_offline_step[OF lt scan k0 assms]
  show ?case by simp
qed

lemma put_online_succeeds:
  assumes "toggles_succeed e"
  shows "n - ncpus \<le> card {i. ft \<le> i \<and> i < max_cpu_count \<and> cpus_taken s i}
         \<Longrightarrow> \<exists>s'. put_online e ncpus n ft s = Inr s'"
proof (induction "n - ncpus" arbitrary: n ft s)
  case 0
  then show ?case by (simp add: put_online_done)
next
  case (Suc m)
  then have lt: "ncpus < n" by simp
  let ?A = "{i. ft \<le> i \<and> i < max_cpu_count \<and> cpus_taken s i}"
  have fin: "finite ?A" by simp
  from Suc.hyps(2) Suc.prems(1) have "0 < card ?A" by linarith
  then have "?A \<noteq> {}" by (metis card.empty less_nat_zero_code)
  then obtain i where i: "ft \<le> i" "i < max_cpu_count" "cpus_taken s i" by auto
  obtain k where scan: "scan_first_taken (cpus_taken s) ft = Inr k"
  proof (cases "scan_first_taken (cpus_taken s) ft")
    case (Inl a)
    from scan_first_taken_Inl[OF Inl] i show ?thesis by auto
  next
    case (Inr k)
    then show ?thesis by (rule that)
  qed
  from scan_first_taken_Inr[OF scan]
  have k: "ft \<le> k" "k < max_cpu_count" "cpus_taken s k"
    "\<forall>j. ft \<le> j \<and> j < k \<longrightarrow> \<not> cpus_taken s j" by auto
  let ?s = "s\<lparr>cpus_taken := (cpus_taken s)(k := False),
              cpus_online := (cpus_online s)(k := True),
              issued := issued s @ [Cpu_state k True]\<rparr>"
  have "?A = insert k {i. k + 1 \<le> i \<and> i < max_cpu_count \<and> cpus_taken ?s i}"
    using k by (auto simp: Suc_le_eq not_less)
  moreover have "k \<notin> {i. k + 1 \<le> i \<and> i < max_cpu_count \<and> cpus_taken ?s i}" by simp
  ultimately have "card ?A = Suc (card {i. k + 1 \<le> i \<and> i < max_cpu_count \<and> cpus_taken ?s i})"
    by (simp del: insert_iff)
  with Suc.prems(1) Suc.hyps(2)
  have c: "(n - 1) - ncpus \<le> card {i. k + 1 \<le> i \<and> i < max_cpu_count \<and> cpus_taken ?s i}"
    by simp
  have m: "m = (n - 1) - ncpus" using Suc.hyps(2) by simp
  from Suc.hyps(1)[OF m c] put_online_step[OF lt scan assms]
  show ?case by simp
qed

lemma count_cpu_set_le: "count_cpu_set cs \<le> max_cpu_count"
proof -
  have "card {i. i < max_cpu_count \<and> cs i} \<le> card {..<max_cpu_count}"
    by (rule card_mono) auto
  then show ?thesis by (simp add: count_cpu_set_card)
qed

lemma take_offline_post:
  assumes run: "take_offline e ncpus n lo s = Inr (n', s')"
    and lo: "lo \<le> max_cpu_count"
    and dis: "online_taken_disjoint s"
    and cnt: "count_cpu_set (cpus_taken s) = n"
  shows "count_cpu_set (cpus_taken s') = n' \<and> \<not> n' < ncpus \<and> (n < ncpus \<longrightarrow> n' = ncpus)
         \<and> wastebin_memory_taken s' = wastebin_memory_taken s
         \<and> wastebin_max_size s' = wastebin_max_size s"
proof (cases "n < ncpus")
  case False
  with run have "n' = n" "s' = s" by (auto simp: take_offline_done)
  with False cnt show ?thesis by simp
next
  case True
  define M where "M = wastebin_memory_taken s"
  define Z where "Z = wastebin_max_size s"
  let ?I = "\<lambda>n lo t. lo \<le> max_cpu_count \<and> online_taken_disjoint t \<and>
              count_cpu_set (cpus_taken t) = n \<and> n \<le> ncpus \<and>
              wastebin_memory_taken t = M \<and> wastebin_max_size t = Z"
  have init: "?I n lo s" using lo dis cnt True by (simp add: M_def Z_def)
  have step: "?I (n + 1) k (t\<lparr>cpus_online := (cpus_online t)(k := False),
                             cpus_taken := (cpus_taken t)(k := True),
                             issued := issued t @ [Cpu_state k False]\<rparr>)"
    if "?I n lo t" "n < ncpus" "scan_last_online (cpus_online t) lo = Inr k" "k \<noteq> 0"
    for n lo t k
  proof -
    from that(1) have lo': "lo \<le> max_cpu_count" and d: "online_taken_disjoint t"
      and c: "count_cpu_set (cpus_taken t) = n"
      and m: "wastebin_memory_taken t = M" "wastebin_max_size t = Z" by simp_all
    from scan_last_online_Inr[OF that(3) lo'] have k: "k < lo" "cpus_online t k" by auto
    with lo' d have kmax: "k < max_cpu_count" and nt: "\<not> cpus_taken t k"
      by (auto simp: online_taken_disjoint_iff)
    from d have d': "online_taken_disjoint (t\<lparr>cpus_online := (cpus_online t)(k := False),
                             cpus_taken := (cpus_taken t)(k := True),
                             issued := issued t @ [Cpu_state k False]\<rparr>)"
      by (auto simp: online_taken_disjoint_iff)
    have "count_cpu_set ((cpus_taken t)(k := True)) = n + 1"
      using count_cpu_set_mark[of k "cpus_taken t"] kmax nt c by simp
    with d' kmax m that(2) show ?thesis by simp
  qed
  from take_offline_rule[where I = ?I, OF run init step]
  have "\<exists>lo'. ?I n' lo' s' \<and> \<not> n' < ncpus" .
  then show ?thesis by (auto simp: M_def Z_def)
qed

lemma put_online_post:
  assumes run: "put_online e ncpus n ft s = Inr s'"
    and cnt: "count_cpu_set (cpus_taken s) = n"
  shows "count_cpu_set (cpus_taken s') = (if ncpus < n then ncpus else n)
         \<and> wastebin_memory_taken s' = wastebin_memory_taken s
         \<and> wastebin_max_size s' = wastebin_max_size s"
proof -
  let ?I = "\<lambda>n (ft::nat) s'. count_cpu_set (cpus_taken s') = n \<and>
              wastebin_memory_taken s' = wastebin_memory_taken s \<and>
              wastebin_max_size s' = wastebin_max_size s"
  have init: "?I n ft s" using cnt by simp
  have step: "?I (n - 1) (k + 1) (s\<lparr>cpus_online := (cpus_online s)(k := True),
                             cpus_taken := (cpus_taken s)(k := False),
                             issued := issued s @ [Cpu_state k True]\<rparr>)"
    if "?I n ft s" "ncpus < n" "scan_first_taken (cpus_taken s) ft = Inr k" for n ft s k
  proof -
    from scan_first_taken_Inr[OF that(3)] have "k < max_cpu_count" "cpus_taken s k" by auto
    with count_cpu_set_clear[of k "cpus_taken s"] that(1) show ?thesis by auto
  qed
  from put_online_rule[where I = ?I, OF run init step] show ?thesis by auto
qed

lemma adjust_cpus_post:
  assumes run: "adjust_cpus e ncpus s = Inr s'" and dis: "online_taken_disjoint s"
  shows "count_cpu_set (cpus_taken s') = ncpus \<and> wastebin_cpus_taken s' = ncpus
         \<and> online_taken_disjoint s'
         \<and> wastebin_memory_taken s' = wastebin_memory_taken s
         \<and> wastebin_max_size s' = wastebin_max_size s"
proof -
  from run obtain n1 s1 s2 where
    t: "take_offline e ncpus (count_cpu_set (cpus_taken s)) max_cpu_count s = Inr (n1, s1)"
    and p: "put_online e ncpus n1 0 s1 = Inr s2"
    and s': "s' = s2\<lparr>wastebin_cpus_taken := ncpus\<rparr>"
    by (auto simp: adjust_cpus_def Let_def split: if_splits sum.splits prod.splits)
  from take_offline_post[OF t order_refl dis refl]
  have t1: "count_cpu_set (cpus_taken s1) = n1" "\<not> n1 < ncpus"
    "wastebin_memory_taken s1 = wastebin_memory_taken s" "wastebin_max_size s1 = wastebin_max_size s"
    by auto
  from put_online_post[OF p t1(1)]
  have p1: "count_cpu_set (cpus_taken s2) = (if ncpus < n1 then ncpus else n1)"
    "wastebin_memory_taken s2 = wastebin_memory_taken s1" "wastebin_max_size s2 = wastebin_max_size s1"
    by auto
  from p1(1) t1(2) have "count_cpu_set (cpus_taken s2) = ncpus" by auto
  with p1 t1 adjust_cpus_disjoint[OF run dis] show ?thesis unfolding s' by simp
qed

lemma adjust_cpus_idle:
  assumes "count_cpu_set (cpus_taken s) = wastebin_cpus_taken s" "wastebin_cpus_taken s = ncpus"
  shows "adjust_cpus e ncpus s = Inr s"
  using assms by (simp add: adjust_cpus_def take_offline_done put_online_done)

lemma adjust_memory_idle: "wastebin_memory_taken s = mem \<Longrightarrow> adjust_memory e mem s = Inr s"
  by (simp add: adjust_memory_def)

lemma adjust_memory_post: "adjust_memory e mem s = Inr s' \<Longrightarrow> wastebin_memory_taken s' = mem"
  by (auto simp: adjust_memory_def Let_def split: if_splits)

lemma adjust_memory_ok:
  "locks_succeed e \<Longrightarrow> \<exists>s'. adjust_memory e mem s = Inr s'"
  by (auto simp: adjust_memory_def Let_def locks_succeed_def)

lemma adjust_cpus_succeeds:
  assumes ok: "toggles_succeed e"
    and cons: "wastebin_cpus_taken s = count_cpu_set (cpus_taken s)"
    and enough: "ncpus \<le> count_cpu_set (cpus_taken s) + count_cpu_set ((cpus_online s)(0 := False))"
  shows "\<exists>s'. adjust_cpus e ncpus s = Inr s'"
proof -
  let ?n = "count_cpu_set (cpus_taken s)"
  have on: "count_cpu_set ((cpus_online s)(0 := False))
            = card {i. 0 < i \<and> i < max_cpu_count \<and> cpus_online s i}"
    unfolding count_cpu_set_card by (rule arg_cong[where f = card]) auto
  have "ncpus - ?n \<le> card {i. 0 < i \<and> i < max_cpu_count \<and> cpus_online s i}"
    using enough on by simp
  from take_offline_succeeds[OF ok order_refl this]
  obtain n1 s1 where t: "take_offline e ncpus ?n max_cpu_count s = Inr (n1, s1)" by force
  have "\<exists>s2. put_online e ncpus n1 0 s1 = Inr s2"
  proof (cases "?n < ncpus")
    case True
    from take_offline_rule[where I = "\<lambda>n lo s. n \<le> ncpus", OF t] True
    have "\<not> ncpus < n1" by auto
    then show ?thesis by (simp add: put_online_done)
  next
    case False
    with t have eq: "n1 = ?n" "s1 = s" by (auto simp: take_offline_done)
    have "?n - ncpus \<le> card {i. 0 \<le> i \<and> i < max_cpu_count \<and> cpus_taken s i}"
      by (simp add: count_cpu_set_card)
    from put_online_succeeds[OF ok this] show ?thesis unfolding eq .
  qed
  then obtain s2 where p: "put_online e ncpus n1 0 s1 = Inr s2" ..
  from t p cons show ?thesis by (simp add: adjust_cpus_def)
qed

lemma first_taken_stays_take:
  assumes inv: "first_taken_stays on tk T"
    and k: "k < max_cpu_count" "on k" "\<forall>i. k < i \<and> i < max_cpu_count \<longrightarrow> \<not> on i"
  shows "first_taken_stays (on(k := False)) (tk(k := True)) (T @ [(k, False)])"
proof (cases "T = []")
  case True
  with inv have none: "\<forall>i<max_cpu_count. \<not> tk i" and dis: "\<forall>i<max_cpu_count. \<not> (on i \<and> tk i)"
    by (auto simp: first_taken_stays_def)
  have top: "\<forall>i<max_cpu_count. (on(k := False)) i \<or> (tk(k := True)) i \<longrightarrow> i \<le> k"
    using none k(3) by (auto simp: not_less [symmetric])
  show ?thesis
    unfolding first_taken_stays_def using True k(1) dis top by auto
next
  case False
  with inv obtain c where c: "c < max_cpu_count" "hd T = (c, False)" "on c \<or> tk c"
    "\<forall>i<max_cpu_count. on i \<or> tk i \<longrightarrow> i \<le> c"
    "(\<exists>i<max_cpu_count. tk i) \<longrightarrow> tk c"
    and dis: "\<forall>i<max_cpu_count. \<not> (on i \<and> tk i)"
    by (auto simp: first_taken_stays_def)
  have tkc: "(tk(k := True)) c"
  proof (cases "tk c")
    case True then show ?thesis by simp
  next
    case nt: False
    with c(3) have "on c" by simp
    with k(3) c(1) have "c \<le> k" by (meson not_le)
    moreover from c(4) k(1,2) have "k \<le> c" by simp
    ultimately show ?thesis by simp
  qed
  have "\<exists>c'<max_cpu_count. hd (T @ [(k, False)]) = (c', False) \<and>
          ((on(k := False)) c' \<or> (tk(k := True)) c') \<and>
          (\<forall>i<max_cpu_count. (on(k := False)) i \<or> (tk(k := True)) i \<longrightarrow> i \<le> c') \<and>
          ((\<exists>i<max_cpu_count. (tk(k := True)) i) \<longrightarrow> (tk(k := True)) c') \<and>
          ((\<forall>i<max_cpu_count. \<not> (tk(k := True)) i) \<longrightarrow> last (T @ [(k, False)]) = (c', True))"
  proof (intro exI[of _ c] conjI)
    show "c < max_cpu_count" by (rule c(1))
    show "hd (T @ [(k, False)]) = (c, False)" using False c(2) by simp
    show "(on(k := False)) c \<or> (tk(k := True)) c" using tkc by simp
    show "\<forall>i<max_cpu_count. (on(k := False)) i \<or> (tk(k := True)) i \<longrightarrow> i \<le> c"
      using c(4) k(1,2) by auto
    show "(\<exists>i<max_cpu_count. (tk(k := True)) i) \<longrightarrow> (tk(k := True)) c" using tkc by simp
    show "(\<forall>i<max_cpu_count. \<not> (tk(k := True)) i) \<longrightarrow> last (T @ [(k, False)]) = (c, True)"
      using k(1) by auto
  qed
  moreover have "\<forall>i<max_cpu_count. \<not> ((on(k := False)) i \<and> (tk(k := True)) i)"
    using dis by auto
  ultimately show ?thesis
    unfolding first_taken_stays_def by simp
qed

lemma first_taken_stays_put:
  assumes inv: "first_taken_stays on tk T"
    and k: "k < max_cpu_count" "tk k" "\<forall>i<k. \<not> tk i"
  shows "first_taken_stays (on(k := True)) (tk(k := False)) (T @ [(k, True)])"
proof -
  from inv k(1,2) have ne: "T \<noteq> []" by (auto simp: first_taken_stays_def)
  with inv obtain c where c: "c < max_cpu_count" "hd T = (c, False)" "on c \<or> tk c"
    "\<forall>i<max_cpu_count. on i \<or> tk i \<longrightarrow> i \<le> c"
    "(\<exists>i<max_cpu_count. tk i) \<longrightarrow> tk c"
    and dis: "\<forall>i<max_cpu_count. \<not> (on i \<and> tk i)"
    by (auto simp: first_taken_stays_def)
  from c(5) k(1,2) have tkc: "tk c" by auto
  from k(3) tkc have kc: "k \<le> c" by (meson not_le)
  have "\<exists>c'<max_cpu_count. hd (T @ [(k, True)]) = (c', False) \<and>
          ((on(k := True)) c' \<or> (tk(k := False)) c') \<and>
          (\<forall>i<max_cpu_count. (on(k := True)) i \<or> (tk(k := False)) i \<longrightarrow> i \<le> c') \<and>
          ((\<exists>i<max_cpu_count. (tk(k := False)) i) \<longrightarrow> (tk(k := False)) c') \<and>
          ((\<forall>i<max_cpu_count. \<not> (tk(k := False)) i) \<longrightarrow> last (T @ [(k, True)]) = (c', True))"
  proof (intro exI[of _ c] conjI)
    show "c < max_cpu_count" by (rule c(1))
    show "hd (T @ [(k, True)]) = (c, False)" using ne c(2) by simp
    show "(on(k := True)) c \<or> (tk(k := False)) c" using tkc by simp
    show "\<forall>i<max_cpu_count. (on(k := True)) i \<or> (tk(k := False)) i \<longrightarrow> i \<le> c"
      using c(4) kc by auto
    show "(\<exists>i<max_cpu_count. (tk(k := False)) i) \<longrightarrow> (tk(k := False)) c"
    proof
      assume "\<exists>i<max_cpu_count. (tk(k := False)) i"
      then obtain i where i: "i < max_cpu_count" "tk i" "i \<noteq> k" by (auto split: if_splits)
      with k(3) have "k < i" by (meson nat_neq_iff)
      moreover from c(4) i have "i \<le> c" by simp
      ultimately have "c \<noteq> k" by simp
      with tkc show "(tk(k := False)) c" by simp
    qed
    show "(\<forall>i<max_cpu_count. \<not> (tk(k := False)) i) \<longrightarrow> last (T @ [(k, True)]) = (c, True)"
    proof
      assume "\<forall>i<max_cpu_count. \<not> (tk(k := False)) i"
      with c(1) tkc have "c = k" by (auto split: if_splits)
      then show "last (T @ [(k, True)]) = (c, True)" by simp
    qed
  qed
  moreover have "\<forall>i<max_cpu_count. \<not> ((on(k := True)) i \<and> (tk(k := False)) i)"
    using dis by auto
  ultimately show ?thesis
    unfolding first_taken_stays_def by simp
qed

lemma cpu_toggles_append [simp]:
  "cpu_toggles (s\<lparr>issued := issued s @ [Cpu_state k b]\<rparr>) = cpu_toggles s @ [(k, b)]"
  by (simp add: cpu_toggles_def)

lemma cpu_toggles_flags [simp]:
  "cpu_toggles (s\<lparr>cpus_online := x\<rparr>) = cpu_toggles s"
  "cpu_toggles (s\<lparr>cpus_taken := y\<rparr>) = cpu_toggles s"
  "cpu_toggles (s\<lparr>wastebin_cpus_taken := n\<rparr>) = cpu_toggles s"
  by (simp_all add: cpu_toggles_def)

lemma take_offline_lifo:
  assumes run: "take_offline e ncpus n max_cpu_count s = Inr (n', s')" and inv: "lifo_inv s"
  shows "lifo_inv s'"
proof -
  let ?I = "\<lambda>(n::nat) lo t. lifo_inv t \<and> lo \<le> max_cpu_count \<and>
              (\<forall>i. lo \<le> i \<and> i < max_cpu_count \<longrightarrow> \<not> cpus_online t i)"
  have init: "?I n max_cpu_count s" using inv by auto
  have step: "?I (n + 1) k (t\<lparr>cpus_online := (cpus_online t)(k := False),
                             cpus_taken := (cpus_taken t)(k := True),
                             issued := issued t @ [Cpu_state k False]\<rparr>)"
    if "?I n lo t" "n < ncpus" "scan_last_online (cpus_online t) lo = Inr k" "k \<noteq> 0"
    for n lo t k
  proof -
    from that(1) have i: "first_taken_stays (cpus_online t) (cpus_taken t) (cpu_toggles t)"
      and lo: "lo \<le> max_cpu_count"
      and above: "\<forall>i. lo \<le> i \<and> i < max_cpu_count \<longrightarrow> \<not> cpus_online t i"
      by (simp_all add: lifo_inv_def)
    from scan_last_online_Inr[OF that(3) lo]
    have k: "k < lo" "cpus_online t k" "\<forall>j. k < j \<and> j < lo \<longrightarrow> \<not> cpus_online t j" by auto
    from k(1) lo have kmax: "k < max_cpu_count" by simp
    have none_above: "\<forall>i. k < i \<and> i < max_cpu_count \<longrightarrow> \<not> cpus_online t i"
      using k(3) above by (meson not_le)
    from first_taken_stays_take[OF i kmax k(2) none_above]
    have "lifo_inv (t\<lparr>cpus_online := (cpus_online t)(k := False),
                             cpus_taken := (cpus_taken t)(k := True),
                             issued := issued t @ [Cpu_state k False]\<rparr>)"
      by (simp add: lifo_inv_def cpu_toggles_def)
    moreover have "\<forall>i. k \<le> i \<and> i < max_cpu_count \<longrightarrow> \<not> ((cpus_online t)(k := False)) i"
      using none_above by (auto simp: le_less)
    ultimately show ?thesis using kmax by simp
  qed
  have "\<exists>lo'. ?I n' lo' s' \<and> \<not> n' < ncpus"
  proof (rule take_offline_rule[where I = ?I, OF run init])
    fix n lo t k
    assume "?I n lo t" "n < ncpus" "scan_last_online (cpus_online t) lo = Inr k" "k \<noteq> 0"
    then show "?I (n + 1) k (t\<lparr>cpus_online := (cpus_online t)(k := False),
                             cpus_taken := (cpus_taken t)(k := True),
                             issued := issued t @ [Cpu_state k False]\<rparr>)"
      by (rule step)
  qed
  then show ?thesis by auto
qed

lemma put_online_lifo:
  assumes run: "put_online e ncpus n 0 s = Inr s'" and inv: "lifo_inv s"
  shows "lifo_inv s'"
proof -
  let ?I = "\<lambda>(n::nat) ft t. lifo_inv t \<and> (\<forall>i<ft. \<not> cpus_taken t i)"
  have init: "?I n 0 s" using inv by simp
  have step: "?I (n - 1) (k + 1) (t\<lparr>cpus_online := (cpus_online t)(k := True),
                             cpus_taken := (cpus_taken t)(k := False),
                             issued := issued t @ [Cpu_state k True]\<rparr>)"
    if "?I n ft t" "ncpus < n" "scan_first_taken (cpus_taken t) ft = Inr k" for n ft t k
  proof -
    from that(1) have i: "first_taken_stays (cpus_online t) (cpus_taken t) (cpu_toggles t)"
      and below: "\<forall>i<ft. \<not> cpus_taken t i"
      by (simp_all add: lifo_inv_def)
    from scan_first_taken_Inr[OF that(3)]
    have k: "ft \<le> k" "k < max_cpu_count" "cpus_taken t k"
      "\<forall>j. ft \<le> j \<and> j < k \<longrightarrow> \<not> cpus_taken t j" by auto
    have none_below: "\<forall>i<k. \<not> cpus_taken t i"
      using k(4) below by (meson not_le)
    from first_taken_stays_put[OF i k(2,3) none_below]
    have "lifo_inv (t\<lparr>cpus_online := (cpus_online t)(k := True),
                             cpus_taken := (cpus_taken t)(k := False),
                             issued := issued t @ [Cpu_state k True]\<rparr>)"
      by (simp add: lifo_inv_def cpu_toggles_def)
    moreover have "\<forall>i<k + 1. \<not> ((cpus_taken t)(k := False)) i"
      using none_below by (auto simp: less_Suc_eq)
    ultimately show ?thesis by simp
  qed
  have "\<exists>ft'. ?I (if ncpus < n then ncpus else n) ft' s'"
  proof (rule put_online_rule[where I = ?I, OF run init])
    fix n ft t k
    assume "?I n ft t" "ncpus < n" "scan_first_taken (cpus_taken t) ft = Inr k"
    then show "?I (n - 1) (k + 1) (t\<lparr>cpus_online := (cpus_online t)(k := True),
                             cpus_taken := (cpus_taken t)(k := False),
                             issued := issued t @ [Cpu_state k True]\<rparr>)"
      by (rule step)
  qed
  then show ?thesis by auto
qed

lemma adjust_cpus_lifo:
  assumes "adjust_cpus e ncpus s = Inr s'" "lifo_inv s"
  shows "lifo_inv s'"
proof -
  from assms(1) obtain n1 s1 s2 where
    t: "take_offline e ncpus (count_cpu_set (cpus_taken s)) max_cpu_count s = Inr (n1, s1)"
    and p: "put_online e ncpus n1 0 s1 = Inr s2"
    and s': "s' = s2\<lparr>wastebin_cpus_taken := ncpus\<rparr>"
    by (auto simp: adjust_cpus_def Let_def split: if_splits sum.splits prod.splits)
  from put_online_lifo[OF p take_offline_lifo[OF t assms(2)]]
  show ?thesis unfolding s' by (simp add: lifo_inv_def)
qed

lemma converge_lifo:
  assumes "converge e d s = Inr s'" "lifo_inv s"
  shows "lifo_inv s'"
proof -
  from assms(1) obtain s1 where a: "adjust_cpus e (nat (cpus d mod int UINT_MOD)) s = Inr s1"
    and m: "adjust_memory e (membytes d) s1 = Inr s'"
    by (auto simp: converge_def split: sum.splits)
  from adjust_cpus_lifo[OF a assms(2)] adjust_memory_cpus[OF m]
  show ?thesis by (simp add: lifo_inv_def)
qed

lemma session_lifo: "session s t \<Longrightarrow> lifo_inv s \<Longrightarrow> lifo_inv t"
  by (induction rule: session.induct) (auto intro: converge_lifo)

lemma after_inventory_lifo: "lifo_inv (after_inventory online m)"
  by (simp add: lifo_inv_def first_taken_stays_def after_inventory_def cpu_toggles_def)

lemma count_cpu_set_zero: "count_cpu_set cs = 0 \<longleftrightarrow> (\<forall>i<max_cpu_count. \<not> cs i)"
  by (auto simp: count_cpu_set_card)

lemma session_consistent:
  "session (after_inventory online0 m) s \<Longrightarrow>
     online_taken_disjoint s \<and> wastebin_cpus_taken s = count_cpu_set (cpus_taken s)"
proof (induction "after_inventory online0 m" s rule: session.induct)
  case session_start
  show ?case
    by (simp add: online_taken_disjoint_iff after_inventory_def count_cpu_set_empty)
next
  case (session_next t e d t')
  from session_next.prems session_next.hyps(3) obtain t1 where
    a: "adjust_cpus e (nat (cpus d mod int UINT_MOD)) t = Inr t1"
    and mm: "adjust_memory e (membytes d) t1 = Inr t'"
    by (auto simp: converge_def split: sum.splits)
  from session_next.hyps(2) have dis: "online_taken_disjoint t" by simp
  from adjust_cpus_post[OF a dis] adjust_memory_cpus[OF mm]
  show ?case by (simp add: online_taken_disjoint_iff)
qed

lemma session_trans: "session t u \<Longrightarrow> session s t \<Longrightarrow> session s u"
  by (induction rule: session.induct) (auto intro: session_next)

lemma daemon_finished:
  "daemon envs k d reads polls s = Some (Finished s') \<Longrightarrow>
     session s s' \<and> wastebin_cpus_taken s' = 0 \<and> wastebin_memory_taken s' = 0"
proof (induction envs k d reads polls s rule: daemon.induct)
  case (1 envs k d reads polls s)
  from "1.prems" obtain s1 where c: "converge (envs k) d s = Inr s1"
    by (subst (asm) daemon.simps) (auto split: sum.splits prod.splits)
  have s1: "session s s1" using session_start c by (rule session_next)
  show ?case
  proof (cases "wastebin_cpus_taken s1 = 0 \<and> wastebin_memory_taken s1 = 0")
    case True
    with "1.prems" c have "s' = s1" by (subst (asm) daemon.simps) simp
    with s1 True show ?thesis by simp
  next
    case False
    with "1.prems" c obtain d' reads' polls' where
      w: "wait_for_message reads polls = Some (Inr (d', reads', polls'))"
      and r: "daemon envs (k + 1) d' reads' polls' s1 = Some (Finished s')"
      by (subst (asm) daemon.simps) (auto split: option.splits sum.splits prod.splits)
    from "1.IH"[OF c False w refl refl refl r]
    have ih: "session s1 s'" "wastebin_cpus_taken s' = 0" "wastebin_memory_taken s' = 0"
      by simp_all
    from ih(1) s1 have "session s s'" by (rule session_trans)
    with ih show ?thesis by simp
  qed
qed

lemma replies_ok_succeed: "toggles_succeed replies_ok" "locks_succeed replies_ok"
  by (simp_all add: toggles_succeed_def locks_succeed_def replies_ok_def)

lemma count_two_taken: "count_cpu_set ((\<lambda>i. False)(7 := True, 6 := True)) = 2"
  by (simp add: count_cpu_set_mark count_cpu_set_empty max_cpu_count_def)

lemma take_offline_eval:
  assumes "n < ncpus" "toggles_succeed e"
  shows "take_offline e ncpus n lo s =
     (case scan_last_online (cpus_online s) lo of
        Inl a \<Rightarrow> Inl (a, s)
      | Inr k \<Rightarrow>
         if k = 0 then Inl (Fail_exit ''can't exhaust online cpus'', s)
         else take_offline e ncpus (Suc n) k
                (s\<lparr>cpus_online := (cpus_online s)(k := False),
                   cpus_taken := (cpus_taken s)(k := True),
                   issued := issued s @ [Cpu_state k False]\<rparr>))"
  using assms by (subst take_offline.simps) (simp add: set_cpu_online_state_ok split: sum.splits)

lemma put_online_eval:
  assumes "ncpus < n" "toggles_succeed e"
  shows "put_online e ncpus n ft s =
     (case scan_first_taken (cpus_taken s) ft of
        Inl a \<Rightarrow> Inl (a, s)
      | Inr k \<Rightarrow>
         put_online e ncpus (n - 1) (Suc k)
           (s\<lparr>cpus_taken := (cpus_taken s)(k := False),
              cpus_online := (cpus_online s)(k := True),
              issued := issued s @ [Cpu_state k True]\<rparr>))"
  using assms by (subst put_online.simps) (simp add: set_cpu_online_state_ok split: sum.splits)

lemma adjust_cpus_eight_two: "adjust_cpus replies_ok 2 eight_cpus = Inr two_taken"
proof -
  have sc1: "scan_last_online (cpus_upto 8) max_cpu_count = Inr 7"
    by (rule scan_last_online_eqI) (auto simp: cpus_upto_def max_cpu_count_def)
  have sc2: "scan_last_online ((cpus_upto 8)(7 := False)) 7 = Inr 6"
    by (rule scan_last_online_eqI) (auto simp: cpus_upto_def max_cpu_count_def)
  show ?thesis
    by (simp add: adjust_cpus_def eight_cpus_def after_inventory_def two_taken_def
          count_cpu_set_empty take_offline_eval take_offline_done put_online_done
          replies_ok_succeed sc1 sc2)
qed

lemma converge_eight_scenario: "converge replies_ok two_gib_two_cpus eight_cpus = Inr scenario_applied"
  by (simp add: converge_def two_gib_two_cpus_def UINT_MOD_def adjust_cpus_eight_two)
     (simp add: adjust_memory_def two_taken_def scenario_applied_def replies_ok_def)

lemma adjust_cpus_release_two:
  "adjust_cpus replies_ok 0 scenario_applied =
     Inr (scenario_applied\<lparr>cpus_online := cpus_upto 8, cpus_taken := (\<lambda>i. False),
            wastebin_cpus_taken := 0,
            issued := issued scenario_applied @ [Cpu_state 6 True, Cpu_state 7 True]\<rparr>)"
proof -
  have sc1: "scan_first_taken ((\<lambda>i. False)(7 := True, 6 := True)) 0 = Inr 6"
    by (rule scan_first_taken_eqI) (auto simp: max_cpu_count_def)
  have sc2: "scan_first_taken ((\<lambda>i. False)(7 := True, 6 := False)) 7 = Inr 7"
    by (rule scan_first_taken_eqI) (auto simp: max_cpu_count_def)
  have on: "(cpus_upto 8)(6 := True, 7 := True) = cpus_upto 8"
    by (auto simp: cpus_upto_def fun_eq_iff)
  have tk: "(\<lambda>i::nat. False)(6 := False, 7 := False) = (\<lambda>i. False)"
    by (auto simp: fun_eq_iff)
  show ?thesis
    by (simp add: adjust_cpus_def scenario_applied_def count_two_taken
          take_offline_done put_online_eval put_online_done replies_ok_succeed sc1 sc2 on tk)
qed

lemma converge_scenario_drained: "converge replies_ok nothing scenario_applied = Inr scenario_drained"
  by (simp add: converge_def nothing_def UINT_MOD_def adjust_cpus_release_two)
     (simp add: adjust_memory_def scenario_applied_def scenario_drained_def)

lemma disjoint_eight: "online_taken_disjoint eight_cpus"
  by (simp add: online_taken_disjoint_iff eight_cpus_def after_inventory_def)

lemma filter_upt_last:
  assumes "k < lo" "P k" "\<forall>j. k < j \<and> j < lo \<longrightarrow> \<not> P j"
  shows "filter P [0..<lo] = filter P [0..<k] @ [k]"
proof -
  have "[0..<lo] = [0..<k] @ k # [Suc k..<lo]"
    using assms(1) by (metis less_imp_le_nat upt_add_eq_append upt_conv_Cons zero_le plus_nat.add_0 le_add_diff_inverse)
  moreover have "filter P [Suc k..<lo] = []" using assms(3) by (auto simp: filter_empty_conv)
  ultimately show ?thesis using assms(2) by simp
qed

lemma filter_upt_first:
  assumes "ft \<le> k" "k < m" "P k" "\<forall>j. ft \<le> j \<and> j < k \<longrightarrow> \<not> P j"
  shows "filter P [ft..<m] = k # filter P [Suc k..<m]"
proof -
  have "[ft..<m] = [ft..<k] @ k # [Suc k..<m]"
    using assms(1,2) by (metis le_Suc_ex less_imp_le_nat upt_add_eq_append upt_conv_Cons)
  moreover have "filter P [ft..<k] = []" using assms(4) by (auto simp: filter_empty_conv)
  ultimately show ?thesis using assms(3) by simp
qed

lemma take_offline_picks:
  assumes "take_offline e ncpus n lo0 s = Inr (n', s')" "lo0 \<le> max_cpu_count"
  shows "length (filter (cpus_online s) [0..<lo0]) \<ge> ncpus - n \<and>
         issued s' = issued s @ map (\<lambda>c. Cpu_state c False)
                        (take (ncpus - n) (rev (filter (cpus_online s) [0..<lo0]))) \<and>
         (\<forall>i. cpus_online s' i \<longleftrightarrow> cpus_online s i \<and>
                 i \<notin> set (take (ncpus - n) (rev (filter (cpus_online s) [0..<lo0])))) \<and>
         (\<forall>i. cpus_taken s' i \<longleftrightarrow> cpus_taken s i \<or>
                 i \<in> set (take (ncpus - n) (rev (filter (cpus_online s) [0..<lo0])))) \<and>
         n' = max n ncpus"
  using assms
proof (induction e ncpus n lo0 s arbitrary: n' s' rule: take_offline.induct)
  case (1 e ncpus n lo0 s)
  show ?case
  proof (cases "n < ncpus")
    case False
    with "1.prems"(1) have "n' = n" "s' = s" by (simp_all add: take_offline_done)
    with False show ?thesis by simp
  next
    case True
    from "1.prems"(1) True obtain k where sc: "scan_last_online (cpus_online s) lo0 = Inr k"
      by (subst (asm) take_offline.simps) (auto split: sum.splits)
    from "1.prems"(1) True sc have k0: "k \<noteq> 0"
      by (subst (asm) take_offline.simps) (auto split: if_splits)
    let ?s0 = "s\<lparr>cpus_online := (cpus_online s)(k := False),
                 cpus_taken := (cpus_taken s)(k := True)\<rparr>"
    from "1.prems"(1) True sc k0 obtain s1 where
      st: "set_cpu_online_state e k False ?s0 = Inr s1"
      and run: "take_offline e ncpus (n + 1) k s1 = Inr (n', s')"
      by (subst (asm) take_offline.simps) (auto split: sum.splits)
    from set_cpu_online_state_Inr[OF st]
    have s1: "s1 = ?s0\<lparr>issued := issued ?s0 @ [Cpu_state k False]\<rparr>" .
    from scan_last_online_Inr[OF sc "1.prems"(2)]
    have k: "k < lo0" "cpus_online s k" "\<forall>j. k < j \<and> j < lo0 \<longrightarrow> \<not> cpus_online s j" by auto
    from k(1) "1.prems"(2) have kle: "k \<le> max_cpu_count" by simp
    have f0: "filter (cpus_online s) [0..<lo0] = filter (cpus_online s) [0..<k] @ [k]"
      using k by (rule filter_upt_last)
    have f1: "filter (cpus_online s1) [0..<k] = filter (cpus_online s) [0..<k]"
      unfolding s1 by (rule filter_cong) auto
    let ?L1 = "take (ncpus - (n + 1)) (rev (filter (cpus_online s) [0..<k]))"
    have tk: "take (ncpus - n) (rev (filter (cpus_online s) [0..<lo0])) = k # ?L1"
    proof -
      from True have "ncpus - n = Suc (ncpus - (n + 1))" by simp
      then show ?thesis unfolding f0 by simp
    qed
    from "1.IH"[OF True sc k0 st run kle]
    have ih: "ncpus - (n + 1) \<le> length (filter (cpus_online s) [0..<k])"
      "issued s' = issued s1 @ map (\<lambda>c. Cpu_state c False) ?L1"
      "\<forall>i. cpus_online s' i \<longleftrightarrow> cpus_online s1 i \<and> i \<notin> set ?L1"
      "\<forall>i. cpus_taken s' i \<longleftrightarrow> cpus_taken s1 i \<or> i \<in> set ?L1"
      "n' = max (n + 1) ncpus"
      unfolding f1 by simp_all
    have c1: "ncpus - n \<le> length (filter (cpus_online s) [0..<lo0])"
      unfolding f0 using ih(1) by simp
    have c2: "issued s' = issued s @ map (\<lambda>c. Cpu_state c False) (k # ?L1)"
      using ih(2) unfolding s1 by simp
    have c3: "\<forall>i. cpus_online s' i \<longleftrightarrow> cpus_online s i \<and> i \<notin> set (k # ?L1)"
      using ih(3) unfolding s1 by auto
    have c4: "\<forall>i. cpus_taken s' i \<longleftrightarrow> cpus_taken s i \<or> i \<in> set (k # ?L1)"
      using ih(4) unfolding s1 by auto
    have c5: "n' = max n ncpus" using ih(5) True by simp
    show ?thesis unfolding tk using c1 c2 c3 c4 c5 by simp
  qed
qed

lemma put_online_picks:
  assumes "put_online e ncpus n ft0 s = Inr s'"
  shows "length (filter (cpus_taken s) [ft0..<max_cpu_count]) \<ge> n - ncpus \<and>
         issued s' = issued s @ map (\<lambda>c. Cpu_state c True)
                        (take (n - ncpus) (filter (cpus_taken s) [ft0..<max_cpu_count])) \<and>
         (\<forall>i. cpus_taken s' i \<longleftrightarrow> cpus_taken s i \<and>
                 i \<notin> set (take (n - ncpus) (filter (cpus_taken s) [ft0..<max_cpu_count]))) \<and>
         (\<forall>i. cpus_online s' i \<longleftrightarrow> cpus_online s i \<or>
                 i \<in> set (take (n - ncpus) (filter (cpus_taken s) [ft0..<max_cpu_count])))"
  using assms
proof (induction e ncpus n ft0 s arbitrary: s' rule: put_online.induct)
  case (1 e ncpus n ft0 s)
  show ?case
  proof (cases "ncpus < n")
    case False
    with "1.prems"(1) have "s' = s" by (simp add: put_online_done)
    with False show ?thesis by simp
  next
    case True
    from "1.prems"(1) True obtain k where sc: "scan_first_taken (cpus_taken s) ft0 = Inr k"
      by (subst (asm) put_online.simps) (auto split: sum.splits)
    let ?s0 = "s\<lparr>cpus_taken := (cpus_taken s)(k := False),
                 cpus_online := (cpus_online s)(k := True)\<rparr>"
    from "1.prems"(1) True sc obtain s1 where
      st: "set_cpu_online_state e k True ?s0 = Inr s1"
      and run: "put_online e ncpus (n - 1) (k + 1) s1 = Inr s'"
      by (subst (asm) put_online.simps) (auto split: sum.splits)
    from set_cpu_online_state_Inr[OF st]
    have s1: "s1 = ?s0\<lparr>issued := issued ?s0 @ [Cpu_state k True]\<rparr>" .
    from scan_first_taken_Inr[OF sc]
    have k: "ft0 \<le> k" "k < max_cpu_count" "cpus_taken s k"
      "\<forall>j. ft0 \<le> j \<and> j < k \<longrightarrow> \<not> cpus_taken s j" by auto
    have f0: "filter (cpus_taken s) [ft0..<max_cpu_count]
              = k # filter (cpus_taken s) [Suc k..<max_cpu_count]"
      using k by (rule filter_upt_first)
    have f1: "filter (cpus_taken s1) [k + 1..<max_cpu_count]
              = filter (cpus_taken s) [Suc k..<max_cpu_count]"
      unfolding s1 by (simp, rule filter_cong) auto
    let ?L1 = "take (n - 1 - ncpus) (filter (cpus_taken s) [Suc k..<max_cpu_count])"
    have tk: "take (n - ncpus) (filter (cpus_taken s) [ft0..<max_cpu_count]) = k # ?L1"
    proof -
      from True have "n - ncpus = Suc (n - 1 - ncpus)" by simp
      then show ?thesis unfolding f0 by simp
    qed
    from "1.IH"[OF True sc st run]
    have ih: "n - 1 - ncpus \<le> length (filter (cpus_taken s) [Suc k..<max_cpu_count])"
      "issued s' = issued s1 @ map (\<lambda>c. Cpu_state c True) ?L1"
      "\<forall>i. cpus_taken s' i \<longleftrightarrow> cpus_taken s1 i \<and> i \<notin> set ?L1"
      "\<forall>i. cpus_online s' i \<longleftrightarrow> cpus_online s1 i \<or> i \<in> set ?L1"
      unfolding f1 by simp_all
    have c1: "n - ncpus \<le> length (filter (cpus_taken s) [ft0..<max_cpu_count])"
      unfolding f0 using ih(1) by simp
    have c2: "issued s' = issued s @ map (\<lambda>c. Cpu_state c True) (k # ?L1)"
      using ih(2) unfolding s1 by simp
    have c3: "\<forall>i. cpus_taken s' i \<longleftrightarrow> cpus_taken s i \<and> i \<notin> set (k # ?L1)"
      using ih(3) unfolding s1 by auto
    have c4: "\<forall>i. cpus_online s' i \<longleftrightarrow> cpus_online s i \<or> i \<in> set (k # ?L1)"
      using ih(4) unfolding s1 by auto
    show ?thesis unfolding tk using c1 c2 c3 c4 by simp
  qed
qed

lemma adjust_cpus_picks:
  assumes "adjust_cpus e ncpus s = Inr s'"
  shows "length (picked_to_take ncpus s) = ncpus - wastebin_cpus_taken s \<and>
         length (picked_to_release ncpus s) = wastebin_cpus_taken s - ncpus \<and>
         issued s' = issued s @ map (\<lambda>c. Cpu_state c False) (picked_to_take ncpus s)
                              @ map (\<lambda>c. Cpu_state c True) (picked_to_release ncpus s) \<and>
         (\<forall>i. cpus_online s' i \<longleftrightarrow>
               (cpus_online s i \<and> i \<notin> set (picked_to_take ncpus s)) \<or>
               i \<in> set (picked_to_release ncpus s)) \<and>
         (\<forall>i. cpus_taken s' i \<longleftrightarrow>
               (cpus_taken s i \<and> i \<notin> set (picked_to_release ncpus s)) \<or>
               i \<in> set (picked_to_take ncpus s))"
proof -
  let ?n = "count_cpu_set (cpus_taken s)"
  from assms have cnt: "?n = wastebin_cpus_taken s"
    by (auto simp: adjust_cpus_def Let_def split: if_splits)
  from assms cnt obtain n1 s1 where
    tk: "take_offline e ncpus ?n max_cpu_count s = Inr (n1, s1)"
    by (auto simp: adjust_cpus_def Let_def split: sum.splits)
  from assms cnt tk obtain s2 where
    pt: "put_online e ncpus n1 0 s1 = Inr s2" and s': "s' = s2\<lparr>wastebin_cpus_taken := ncpus\<rparr>"
    by (auto simp: adjust_cpus_def Let_def split: sum.splits)
  show ?thesis
  proof (cases "?n \<le> ncpus")
    case True
    from take_offline_picks[OF tk order_refl]
    have a: "ncpus - ?n \<le> length (filter (cpus_online s) [0..<max_cpu_count])"
      "issued s1 = issued s @ map (\<lambda>c. Cpu_state c False)
                        (take (ncpus - ?n) (rev (filter (cpus_online s) [0..<max_cpu_count])))"
      "\<forall>i. cpus_online s1 i \<longleftrightarrow> cpus_online s i \<and>
                 i \<notin> set (take (ncpus - ?n) (rev (filter (cpus_online s) [0..<max_cpu_count])))"
      "\<forall>i. cpus_taken s1 i \<longleftrightarrow> cpus_taken s i \<or>
                 i \<in> set (take (ncpus - ?n) (rev (filter (cpus_online s) [0..<max_cpu_count])))"
      "n1 = max ?n ncpus"
      by simp_all
    from a(5) True have "\<not> ncpus < n1" by simp
    with pt have s2: "s2 = s1" by (simp add: put_online_done)
    from True cnt have rel: "picked_to_release ncpus s = []"
      by (simp add: picked_to_release_def)
    have tkl: "picked_to_take ncpus s
               = take (ncpus - ?n) (rev (filter (cpus_online s) [0..<max_cpu_count]))"
      by (simp add: picked_to_take_def online_downward_def cnt)
    have len: "length (picked_to_take ncpus s) = ncpus - wastebin_cpus_taken s"
      unfolding tkl using a(1) cnt by simp
    from len rel a(2,3,4) True cnt show ?thesis
      unfolding s' s2 tkl[symmetric] by simp
  next
    case False
    then have lt: "ncpus < ?n" by simp
    then have "\<not> ?n < ncpus" by simp
    with tk have e1: "n1 = ?n" "s1 = s" by (auto simp: take_offline_done)
    from put_online_picks[OF pt]
    have b: "?n - ncpus \<le> length (filter (cpus_taken s) [0..<max_cpu_count])"
      "issued s2 = issued s @ map (\<lambda>c. Cpu_state c True)
                        (take (?n - ncpus) (filter (cpus_taken s) [0..<max_cpu_count]))"
      "\<forall>i. cpus_taken s2 i \<longleftrightarrow> cpus_taken s i \<and>
                 i \<notin> set (take (?n - ncpus) (filter (cpus_taken s) [0..<max_cpu_count]))"
      "\<forall>i. cpus_online s2 i \<longleftrightarrow> cpus_online s i \<or>
                 i \<in> set (take (?n - ncpus) (filter (cpus_taken s) [0..<max_cpu_count]))"
      unfolding e1 by simp_all
    from lt cnt have tkl: "picked_to_take ncpus s = []"
      by (simp add: picked_to_take_def)
    have rel: "picked_to_release ncpus s
               = take (?n - ncpus) (filter (cpus_taken s) [0..<max_cpu_count])"
      by (simp add: picked_to_release_def taken_upward_def cnt)
    have len: "length (picked_to_release ncpus s) = wastebin_cpus_taken s - ncpus"
      unfolding rel using b(1) cnt by simp
    from len tkl b(2,3,4) lt cnt show ?thesis
      unfolding s' rel[symmetric] by simp
  qed
qed

lemma filter_cpus_upto:
  assumes "n \<le> m"
  shows "filter (cpus_upto n) [0..<m] = [0..<n]"
proof -
  from assms have "[0..<m] = [0..<n] @ [n..<m]"
    by (metis le_add_diff_inverse upt_add_eq_append zero_le plus_nat.add_0)
  moreover have "filter (cpus_upto n) [0..<n] = [0..<n]" by (simp add: cpus_upto_def)
  moreover have "filter (cpus_upto n) [n..<m] = []"
    by (auto simp: cpus_upto_def filter_empty_conv)
  ultimately show ?thesis by simp
qed

lemma picked_eight_two: "picked_to_take 2 eight_cpus = [7, 6]"
proof -
  have "[0..<8] = [0, 1, 2, 3, 4, 5, 6, 7::nat]" by (simp add: upt_rec)
  then show ?thesis
    by (simp add: picked_to_take_def online_downward_def eight_cpus_def after_inventory_def
          filter_cpus_upto max_cpu_count_def)
qed

lemma picked_release_two: "picked_to_release 0 scenario_applied = [6, 7]"
proof -
  let ?P = "(\<lambda>i. False)(7 := True, 6 := True) :: nat \<Rightarrow> bool"
  have "filter ?P [0..<max_cpu_count] = 6 # filter ?P [Suc 6..<max_cpu_count]"
    by (rule filter_upt_first) (auto simp: max_cpu_count_def)
  also have "filter ?P [Suc 6..<max_cpu_count] = 7 # filter ?P [Suc 7..<max_cpu_count]"
    by (rule filter_upt_first) (auto simp: max_cpu_count_def)
  also have "filter ?P [Suc 7..<max_cpu_count] = []"
    by (auto simp: filter_empty_conv)
  finally have f: "filter ?P [0..<max_cpu_count] = [6, 7]" .
  have "taken_upward scenario_applied = filter ?P [0..<max_cpu_count]"
    by (simp add: taken_upward_def scenario_applied_def)
  with f have "taken_upward scenario_applied = [6, 7]" by (simp only:)
  then show ?thesis
    by (simp add: picked_to_release_def scenario_applied_def)
qed

lemma adjust_cpus_two_released: "adjust_cpus replies_ok 0 scenario_applied = Inr two_released"
  using adjust_cpus_release_two by (simp add: two_released_def scenario_applied_def)

lemma toggles_of_cpu_states:
  "concat (map (toggle_of \<circ> (\<lambda>c. Cpu_state c b)) L) = map (\<lambda>c. (c, b)) L"
  by (induction L) simp_all

lemma adjust_memory_toggles:
  "adjust_memory e mem s = Inr s' \<Longrightarrow> cpu_toggles s' = cpu_toggles s"
  by (auto simp: adjust_memory_def cpu_toggles_def Let_def split: if_splits)

lemma converge_picks:
  assumes "converge e d s = Inr s'"
  shows "cpu_toggles s' = cpu_toggles s
           @ map (\<lambda>c. (c, False)) (picked_to_take (nat (cpus d mod int UINT_MOD)) s)
           @ map (\<lambda>c. (c, True)) (picked_to_release (nat (cpus d mod int UINT_MOD)) s)"
proof -
  from assms obtain s1 where
    a: "adjust_cpus e (nat (cpus d mod int UINT_MOD)) s = Inr s1"
    and m: "adjust_memory e (membytes d) s1 = Inr s'"
    by (auto simp: converge_def split: sum.splits)
  from adjust_cpus_picks[OF a]
  have "issued s1 = issued s
          @ map (\<lambda>c. Cpu_state c False) (picked_to_take (nat (cpus d mod int UINT_MOD)) s)
          @ map (\<lambda>c. Cpu_state c True) (picked_to_release (nat (cpus d mod int UINT_MOD)) s)"
    by simp
  then have "cpu_toggles s1 = cpu_toggles s
           @ map (\<lambda>c. (c, False)) (picked_to_take (nat (cpus d mod int UINT_MOD)) s)
           @ map (\<lambda>c. (c, True)) (picked_to_release (nat (cpus d mod int UINT_MOD)) s)"
    by (simp add: cpu_toggles_def toggles_of_cpu_states)
  with adjust_memory_toggles[OF m] show ?thesis by simp
qed

lemma count_cpus_upto: "n \<le> max_cpu_count \<Longrightarrow> count_cpu_set (cpus_upto n) = n"
proof -
  assume "n \<le> max_cpu_count"
  then have "{i. i < max_cpu_count \<and> cpus_upto n i} = {..<n}"
    by (auto simp: cpus_upto_def)
  then show ?thesis by (simp add: count_cpu_set_card)
qed

lemma daemon_scenario:
  "daemon (\<lambda>k. replies_ok) 0 two_gib_two_cpus [(16, 0, nothing)] [] eight_cpus
     = Some (Finished scenario_drained)"
proof -
  have f: "wastebin_cpus_taken scenario_applied = 2"
    by (simp add: scenario_applied_def)
  have g: "wastebin_cpus_taken scenario_drained = 0" "wastebin_memory_taken scenario_drained = 0"
    by (simp_all add: scenario_drained_def)
  have step2: "daemon (\<lambda>k. replies_ok) (Suc 0) nothing [] [] scenario_applied
          = Some (Finished scenario_drained)"
    by (subst daemon.simps) (simp add: converge_scenario_drained g)
  show ?thesis
    by (subst daemon.simps)
       (simp add: converge_eight_scenario f SIZE_MOD_def sizeof_desired_def step2)
qed

lemma poll_until_ready_timeouts:
  assumes "\<forall>p\<in>set timeouts. 0 \<le> fst p \<and> snd p AND POLLIN = 0"
  shows "poll_until_ready (timeouts @ polls) = poll_until_ready polls"
  using assms by (induction timeouts) auto

lemma poll_until_ready_ready:
  "0 \<le> ec \<Longrightarrow> revents AND POLLIN \<noteq> 0 \<Longrightarrow> poll_until_ready ((ec, revents) # polls) = Some (Inr polls)"
  by simp

lemma of_char_digit_char: "d < 10 \<Longrightarrow> (of_char (digit_char d) :: nat) = 48 + d"
proof -
  assume "d < 10"
  then consider "d = 0" | "d = 1" | "d = 2" | "d = 3" | "d = 4"
    | "d = 5" | "d = 6" | "d = 7" | "d = 8" | "d = 9" by atomize_elim arith
  then show ?thesis by cases (simp_all add: digit_char_def)
qed

lemma isdigit_digit_char: "d < 10 \<Longrightarrow> isdigit (digit_char d)"
  by (simp add: isdigit_def of_char_digit_char)

lemma decimal_digits: "\<forall>c\<in>set (decimal n). isdigit c"
proof (induction n rule: decimal.induct)
  case (1 n)
  show ?case
  proof (cases "n < 10")
    case True
    then show ?thesis by (subst decimal.simps) (simp add: isdigit_digit_char)
  next
    case False
    with 1 show ?thesis by (subst decimal.simps) (simp add: isdigit_digit_char)
  qed
qed

lemma decimal_nonempty: "decimal n \<noteq> []"
  by (subst decimal.simps) simp

lemma digits_value_snoc:
  "digits_value (ds @ [c]) = 10 * digits_value ds + (of_char c - 48)"
  by (simp add: digits_value_def)

lemma digits_value_decimal: "digits_value (decimal n) = n"
proof (induction n rule: decimal.induct)
  case (1 n)
  show ?case
  proof (cases "n < 10")
    case True
    then show ?thesis
      by (subst decimal.simps) (simp add: digits_value_def of_char_digit_char)
  next
    case False
    then have "digits_value (decimal n) = 10 * digits_value (decimal (n div 10)) + n mod 10"
      by (subst decimal.simps) (simp add: digits_value_snoc of_char_digit_char)
    with 1 False show ?thesis by simp
  qed
qed

lemma isdigit_not_space: "isdigit c \<Longrightarrow> \<not> isspace c"
  by (auto simp: isdigit_def isspace_def)

lemma isdigit_not_sign: "isdigit c \<Longrightarrow> c \<noteq> CHR ''-'' \<and> c \<noteq> CHR ''+'' \<and> c \<noteq> CHR '','' \<and> c \<noteq> CHR 0x0A \<and> c \<noteq> CHR 0x00"
  by (auto simp: isdigit_def)

lemma hd_decimal_digit: "isdigit (hd (decimal n))"
  using decimal_digits[of n] decimal_nonempty[of n] by (cases "decimal n") auto

lemma hd_decimal_append [simp]: "hd (decimal n @ rest) = hd (decimal n)"
  using decimal_nonempty by simp

lemma scan_unsigned_decimal:
  assumes "u < UINT_MOD" "rest = [] \<or> \<not> isdigit (hd rest)"
  shows "scan_unsigned (decimal u @ rest) = Converted u (length (decimal u))"
proof -
  let ?str = "decimal u @ rest"
  have ns: "\<not> isspace (hd (decimal u))" using hd_decimal_digit isdigit_not_space by blast
  have cons: "?str = hd (decimal u) # tl (decimal u) @ rest"
    using decimal_nonempty[of u] by simp
  have ws: "takeWhile isspace ?str = []" "dropWhile isspace ?str = ?str"
    by (subst cons, simp add: ns decimal_nonempty)+
  have sg: "hd (decimal u) \<noteq> CHR ''-''" "hd (decimal u) \<noteq> CHR ''+''"
    using hd_decimal_digit[of u] isdigit_not_sign by auto
  have "takeWhile isdigit rest = []"
    using assms(2) by (cases rest) auto
  then have ds: "takeWhile isdigit ?str = decimal u"
    using decimal_digits[of u] by (simp add: takeWhile_append2)
  have v: "store_unsigned False u = u"
    using assms(1) by (simp add: store_unsigned_def ULONG_MAX_def UINT_MOD_def)
  show ?thesis
    unfolding scan_unsigned_def
    by (simp add: ws sg ds decimal_nonempty digits_value_decimal v Let_def)
qed

lemma c_string_append:
  "CHR 0x00 \<notin> set t \<Longrightarrow> c_string (t @ rest) = t @ c_string rest"
  unfolding c_string_def by (rule takeWhile_append2) auto

lemma c_string_drop:
  assumes "n \<le> length (c_string xs)"
  shows "c_string (drop n xs) = drop n (c_string xs)"
proof -
  let ?P = "\<lambda>c. c \<noteq> CHR 0x00"
  have "drop n (takeWhile ?P xs @ dropWhile ?P xs)
          = drop n (takeWhile ?P xs) @ dropWhile ?P xs"
    using assms by (simp add: c_string_def del: takeWhile_dropWhile_id)
  then have "drop n xs = drop n (takeWhile ?P xs) @ dropWhile ?P xs"
    by simp
  moreover have "takeWhile ?P (drop n (takeWhile ?P xs) @ dropWhile ?P xs)
      = drop n (takeWhile ?P xs) @ takeWhile ?P (dropWhile ?P xs)"
    by (rule takeWhile_append2) (auto dest: in_set_dropD set_takeWhileD)
  moreover have "takeWhile ?P (dropWhile ?P xs) = []"
  proof (cases "dropWhile ?P xs")
    case Nil
    show ?thesis unfolding Nil by simp
  next
    case (Cons a list)
    then have "dropWhile ?P xs \<noteq> []" by simp
    from hd_dropWhile[OF this] Cons show ?thesis by simp
  qed
  ultimately show ?thesis by (simp add: c_string_def)
qed

lemma decimal_no_nul: "CHR 0x00 \<notin> set (decimal n)"
  using decimal_digits[of n] isdigit_not_sign by blast

lemma item_text_no_nul: "CHR 0x00 \<notin> set (item_text x)"
  by (cases x) (auto simp: decimal_no_nul)

lemma range_list_text_no_nul: "CHR 0x00 \<notin> set (range_list_text xs)"
  by (induction xs rule: range_list_text.induct) (auto simp: item_text_no_nul)

lemma hd_item_text: "isdigit (hd (item_text x))"
  by (cases x) (auto simp: hd_decimal_digit)

lemma item_text_nonempty: "item_text x \<noteq> []"
  by (cases x) (auto simp: decimal_nonempty)

lemma hd_range_list_text:
  "xs \<noteq> [] \<Longrightarrow> range_list_text xs \<noteq> [] \<and> isdigit (hd (range_list_text xs))"
  by (induction xs rule: range_list_text.induct)
     (auto simp: item_text_nonempty hd_item_text)

lemma sscanf_u_sep_end:
  assumes "u < UINT_MOD" "t = [] \<or> hd t = CHR 0x0A"
  shows "sscanf_u_sep (decimal u @ t) = Np_1 u (length (decimal u))"
proof -
  have "t = [] \<or> \<not> isdigit (hd t)" using assms(2) by (auto simp: isdigit_def)
  from scan_unsigned_decimal[OF assms(1) this] assms(2) show ?thesis
    by (cases t) (auto simp: sscanf_u_sep_def)
qed

lemma sscanf_u_sep_sep:
  assumes "u < UINT_MOD" "c = CHR '','' \<or> c = CHR ''-''"
  shows "sscanf_u_sep (decimal u @ c # r) = Np_2 u (length (decimal u)) c [] (length (decimal u) + 1)"
proof -
  have "c # r = [] \<or> \<not> isdigit (hd (c # r))" using assms(2) by (auto simp: isdigit_def)
  from scan_unsigned_decimal[OF assms(1) this] assms(2) show ?thesis
    by (auto simp: sscanf_u_sep_def)
qed

lemma sscanf_u_commas_end:
  assumes "u < UINT_MOD" "t = [] \<or> hd t = CHR 0x0A"
  shows "sscanf_u_commas (decimal u @ t) = Np_1 u (length (decimal u))"
proof -
  have "t = [] \<or> \<not> isdigit (hd t)" using assms(2) by (auto simp: isdigit_def)
  from scan_unsigned_decimal[OF assms(1) this] assms(2) show ?thesis
    by (cases t) (auto simp: sscanf_u_commas_def)
qed

lemma sscanf_u_commas_one:
  assumes "u < UINT_MOD" "r = [] \<or> hd r \<noteq> CHR '',''"
  shows "sscanf_u_commas (decimal u @ CHR '','' # r)
         = Np_2 u (length (decimal u)) CHR '','' [] (length (decimal u) + 1)"
proof -
  have "CHR '','' # r = [] \<or> \<not> isdigit (hd (CHR '','' # r))" by (simp add: isdigit_def)
  from scan_unsigned_decimal[OF assms(1) this] assms(2) show ?thesis
    by (cases r) (auto simp: sscanf_u_commas_def)
qed

lemma drop_c_string_at:
  assumes "c_string (drop nxt buf) = a @ b"
  shows "c_string (drop (nxt + length a) buf) = b"
proof -
  have "length a \<le> length (c_string (drop nxt buf))" using assms by simp
  from c_string_drop[OF this] assms show ?thesis by (simp add: add.commute)
qed

lemma store_past_c_nul: "store_past_c [] ul = Some (ul div 256 * 256)"
  by (simp add: store_past_c_def)

lemma mark_cpus_cut:
  assumes "survives_comma (Range lo hi)"
  shows "mark_cpus lo (hi div 256 * 256) cs = mark_cpus lo hi cs"
proof (cases "hi mod 256 = 0")
  case True
  then have "hi div 256 * 256 = hi" by auto
  then show ?thesis by simp
next
  case False
  with assms have "max_cpu_count \<le> lo \<or> max_cpu_count \<le> hi" by simp
  then have "max_cpu_count \<le> lo \<or> (max_cpu_count \<le> hi \<and> max_cpu_count \<le> hi div 256 * 256)"
    by (auto simp: max_cpu_count_def)
  then show ?thesis by (auto simp: mark_cpus_def)
qed

lemma parse_group_item_last:
  assumes S: "c_string (drop nxt buf) = item_text x @ t"
    and t: "t = [] \<or> hd t = CHR 0x0A" and fits: "item_fits x"
  shows "\<exists>ul'. parse_group buf nxt ul0 cs
           = Parsed (nxt + length (item_text x)) ul' (mark_item x cs)"
proof (cases x)
  case (Single u)
  with S t fits show ?thesis
    by (simp add: parse_group_def sscanf_u_sep_end)
next
  case (Range lo hi)
  with S have S1: "c_string (drop nxt buf) = (decimal lo @ ''-'') @ (decimal hi @ t)" by simp
  from drop_c_string_at[OF S1]
  have S2: "c_string (drop (nxt + (length (decimal lo) + 1)) buf) = decimal hi @ t" by simp
  from Range S fits have "sscanf_u_sep (c_string (drop nxt buf))
      = Np_2 lo (length (decimal lo)) CHR ''-'' [] (length (decimal lo) + 1)"
    by (simp add: sscanf_u_sep_sep)
  moreover from Range fits t have "sscanf_u_commas (decimal hi @ t) = Np_1 hi (length (decimal hi))"
    by (simp add: sscanf_u_commas_end)
  ultimately show ?thesis using Range S2
    by (simp add: parse_group_def store_past_c_nul)
qed

lemma parse_group_item_comma:
  assumes S: "c_string (drop nxt buf) = item_text x @ CHR '','' # r"
    and r: "r = [] \<or> hd r \<noteq> CHR '',''" and fits: "item_fits x"
    and safe: "survives_comma x"
  shows "\<exists>ul'. parse_group buf nxt ul0 cs
           = Parsed (nxt + length (item_text x) + 1) ul' (mark_item x cs)"
proof (cases x)
  case (Single u)
  with S fits show ?thesis
    by (simp add: parse_group_def sscanf_u_sep_sep store_past_c_nul)
next
  case (Range lo hi)
  with S have S1: "c_string (drop nxt buf) = (decimal lo @ ''-'') @ (decimal hi @ CHR '','' # r)"
    by simp
  from drop_c_string_at[OF S1]
  have S2: "c_string (drop (nxt + (length (decimal lo) + 1)) buf) = decimal hi @ CHR '','' # r"
    by simp
  from Range S fits have "sscanf_u_sep (c_string (drop nxt buf))
      = Np_2 lo (length (decimal lo)) CHR ''-'' [] (length (decimal lo) + 1)"
    by (simp add: sscanf_u_sep_sep)
  moreover from Range fits r have "sscanf_u_commas (decimal hi @ CHR '','' # r)
      = Np_2 hi (length (decimal hi)) CHR '','' [] (length (decimal hi) + 1)"
    by (simp add: sscanf_u_commas_one)
  moreover from Range safe have "mark_cpus lo (hi div 256 * 256) cs = mark_cpus lo hi cs"
    by (intro mark_cpus_cut) simp
  ultimately show ?thesis using Range S2
    by (simp add: parse_group_def store_past_c_nul)
qed

lemma c_string_tail:
  "tail = [] \<or> hd tail = CHR 0x0A \<Longrightarrow> c_string tail = [] \<or> hd (c_string tail) = CHR 0x0A"
  by (cases tail) (auto simp: c_string_def)

lemma parse_groups_stop:
  assumes "parse_group buf nxt ul0 cs = Parsed n' ul' cs'"
    and "\<not> (n' \<noteq> length buf \<and> buf ! n' \<noteq> CHR 0x0A)"
  shows "parse_groups buf nxt ul0 cs = (cs', List_end)"
  by (subst parse_groups.simps) (use assms in auto)

lemma parse_groups_go:
  assumes "parse_group buf nxt ul0 cs = Parsed n' ul' cs'"
    and "n' \<noteq> length buf \<and> buf ! n' \<noteq> CHR 0x0A"
  shows "parse_groups buf nxt ul0 cs = parse_groups buf n' ul' cs'"
  by (subst parse_groups.simps) (use assms in simp)

lemma parse_groups_range_list:
  assumes "items \<noteq> []" "\<forall>x\<in>set items. item_fits x" "commas_harmless items"
    "tail = [] \<or> hd tail = CHR 0x0A"
  shows "parse_groups (pre @ range_list_text items @ tail) (length pre) ul0 cs
         = (fold mark_item items cs, List_end)"
  using assms
proof (induction items arbitrary: pre cs ul0 rule: range_list_text.induct)
  case 1
  then show ?case by simp
next
  case (2 x)
  let ?buf = "pre @ item_text x @ tail"
  have S: "c_string (drop (length pre) ?buf) = item_text x @ c_string tail"
    by (simp add: c_string_append item_text_no_nul)
  from 2 have fits: "item_fits x" by simp
  from parse_group_item_last[OF S c_string_tail[OF "2.prems"(4)] fits]
  obtain ul' where g: "parse_group ?buf (length pre) ul0 cs
           = Parsed (length pre + length (item_text x)) ul' (mark_item x cs)"
    by auto
  have stop: "\<not> (length pre + length (item_text x) \<noteq> length ?buf \<and>
                ?buf ! (length pre + length (item_text x)) \<noteq> CHR 0x0A)"
  proof (cases tail)
    case Nil
    then show ?thesis by simp
  next
    case (Cons c tl)
    with "2.prems"(4) have "c = CHR 0x0A" by simp
    with Cons show ?thesis by (simp add: nth_append)
  qed
  show ?case
    using parse_groups_stop[OF g stop] by simp
next
  case (3 x y ys)
  let ?R = "range_list_text (y # ys)"
  let ?buf = "pre @ (item_text x @ '','' @ ?R) @ tail"
  have Rn: "?R \<noteq> []" and Rd: "isdigit (hd ?R)"
    using hd_range_list_text[of "y # ys"] by simp_all
  have S: "c_string (drop (length pre) ?buf) = item_text x @ CHR '','' # (?R @ c_string tail)"
    using c_string_append[of "item_text x @ '','' @ ?R" tail]
    by (simp add: item_text_no_nul range_list_text_no_nul)
  have r: "?R @ c_string tail = [] \<or> hd (?R @ c_string tail) \<noteq> CHR '',''"
    using Rn Rd isdigit_not_sign by auto
  from 3 have fits: "item_fits x" and safe: "survives_comma x" by simp_all
  from parse_group_item_comma[OF S r fits safe]
  obtain ul' where g: "parse_group ?buf (length pre) ul0 cs
           = Parsed (length pre + length (item_text x) + 1) ul' (mark_item x cs)"
    by auto
  let ?n = "length pre + length (item_text x) + 1"
  have at: "?buf ! ?n = hd ?R"
  proof -
    have "?buf = (pre @ item_text x @ '','') @ hd ?R # (tl ?R @ tail)" using Rn by simp
    then have "?buf ! length (pre @ item_text x @ '','') = hd ?R"
      by (simp only: nth_append_length)
    then show ?thesis by simp
  qed
  have go: "?n \<noteq> length ?buf \<and> ?buf ! ?n \<noteq> CHR 0x0A"
    using Rn Rd isdigit_not_sign at by auto
  have buf: "?buf = (pre @ item_text x @ '','') @ ?R @ tail" by simp
  have n: "?n = length (pre @ item_text x @ '','')" by simp
  have "parse_groups ?buf (length pre) ul0 cs = parse_groups ?buf ?n ul' (mark_item x cs)"
    by (rule parse_groups_go[OF g go])
  also have "\<dots> = (fold mark_item (y # ys) (mark_item x cs), List_end)"
    unfolding buf n using "3.prems" by (intro "3.IH") simp_all
  finally show ?case by simp
qed

lemma fold_mark_range:
  "fold (\<lambda>i cs. cs(i := True)) xs cs = (\<lambda>i. cs i \<or> i \<in> set xs)"
  by (induction xs arbitrary: cs) (auto simp: fun_eq_iff)

lemma mark_item_ids: "{i. mark_item x cs i} = {i. cs i} \<union> item_ids x"
  by (cases x) (auto simp: mark_cpu_def mark_cpus_def fold_mark_range)

lemma fold_mark_item_ids:
  "{i. fold mark_item items cs i} = {i. cs i} \<union> (\<Union>x\<in>set items. item_ids x)"
proof (induction items arbitrary: cs)
  case Nil
  then show ?case by simp
next
  case (Cons x items)
  have "{i. fold mark_item (x # items) cs i}
        = {i. mark_item x cs i} \<union> (\<Union>x\<in>set items. item_ids x)"
    using Cons.IH[of "mark_item x cs"] by simp
  then show ?case by (auto simp: mark_item_ids)
qed

lemmas parse_eval = parse_sysfs_cpu_set_def parse_groups.simps parse_group_def sscanf_u_sep_def
  sscanf_u_commas_def scan_unsigned_def c_string_def isspace_def isdigit_def digits_value_def
  store_unsigned_def ULONG_MAX_def UINT_MOD_def mark_cpu_def mark_cpus_def max_cpu_count_def
  store_past_c_def fold_mark_range no_flags_def marked_def Let_def

lemma item_ids_bounded: "item_ids x \<subseteq> {..<max_cpu_count}"
  by (cases x) auto

lemma range_before_comma_cut:
  "marked (fst (parse_sysfs_cpu_set (''1-3,5'' @ [CHR 0x0A]) ul0 no_flags)) = {5}"
  "snd (parse_sysfs_cpu_set (''1-3,5'' @ [CHR 0x0A]) ul0 no_flags) = List_end"
  "marked (fst (parse_sysfs_cpu_set (''0-3,7'' @ [CHR 0x0A]) ul0 no_flags)) = {0, 7}"
  "marked (fst (parse_sysfs_cpu_set (''0-300,7'' @ [CHR 0x0A]) ul0 no_flags)) = {0..256}"
  by (auto simp: parse_eval)

lemma many_commas_past_ul:
  "parse_sysfs_cpu_set ''0-3,,,,,5'' ul0 no_flags = (no_flags, Past_ul)"
  by (simp add: parse_eval)

lemma other_lenient_inputs:
  "marked (fst (parse_sysfs_cpu_set ''0,,5'' ul0 no_flags)) = {0}"
  "snd (parse_sysfs_cpu_set ''0,,5'' ul0 no_flags) = Gave_up 2"
  "marked (fst (parse_sysfs_cpu_set ''1-2-3,4'' ul0 no_flags)) = {1, 2, 4}"
  "marked (fst (parse_sysfs_cpu_set ''4294967296'' ul0 no_flags)) = {0}"
  by (auto simp: parse_eval)

section \<open>The claims\<close>

text \<open>
  Claim C1 fails as stated. On a machine whose only online CPU is CPU 0 the target of
  one CPU lies in \<open>[0, number of online CPUs]\<close>, the state is consistent and every
  operation succeeds; yet the iteration ends in the fatal exit "can't exhaust online
  cpus" with nothing taken, because \<^verbatim>\<open>adjust_cpus\<close> refuses to take CPU 0.
\<close>

theorem last_cpu_not_taken_counterexample:
  "toggles_succeed replies_ok \<and> locks_succeed replies_ok \<and> online_taken_disjoint one_cpu \<and>
   wastebin_cpus_taken one_cpu = count_cpu_set (cpus_taken one_cpu) \<and>
   count_cpu_set (cpus_online one_cpu) = 1 \<and>
   converge replies_ok take_one one_cpu = Inl (Fail_exit ''can't exhaust online cpus'', one_cpu)"
proof -
  have sc: "scan_last_online (cpus_upto (Suc 0)) max_cpu_count = Inr 0"
    by (rule scan_last_online_eqI) (auto simp: cpus_upto_def max_cpu_count_def)
  have "converge replies_ok take_one one_cpu = Inl (Fail_exit ''can't exhaust online cpus'', one_cpu)"
    by (simp add: converge_def take_one_def UINT_MOD_def adjust_cpus_def one_cpu_def
          after_inventory_def count_cpu_set_empty take_offline_eval replies_ok_succeed sc)
  moreover have "online_taken_disjoint one_cpu"
    by (simp add: online_taken_disjoint_iff one_cpu_def after_inventory_def)
  moreover have "count_cpu_set (cpus_online one_cpu) = 1"
    by (simp add: one_cpu_def after_inventory_def count_cpus_upto max_cpu_count_def)
  moreover have "wastebin_cpus_taken one_cpu = count_cpu_set (cpus_taken one_cpu)"
    by (simp add: one_cpu_def after_inventory_def count_cpu_set_empty)
  ultimately show ?thesis using replies_ok_succeed by simp
qed

text \<open>
  Claim C1, amended. From every consistent state (\<open>Online\<close> and \<open>Taken\<close> disjoint, the
  counter equal to \<open>|Taken|\<close>), for every target whose \<open>cpus\<close> is at least 0 and at most
  \<open>|Taken|\<close> plus the number of online CPUs other than CPU 0, and for every \<open>membytes\<close>,
  one convergence iteration in which every CPU write and every \<^verbatim>\<open>mlock\<close> succeeds returns
  normally with \<open>|Taken| = cpus\<close> and \<open>memory_taken = membytes\<close>.
\<close>

theorem converge_reaches_target:
  assumes "online_taken_disjoint s"
    and "wastebin_cpus_taken s = count_cpu_set (cpus_taken s)"
    and "toggles_succeed e" and "locks_succeed e"
    and "0 \<le> cpus d"
    and "nat (cpus d) \<le> count_cpu_set (cpus_taken s) + count_cpu_set ((cpus_online s)(0 := False))"
  shows "\<exists>s'. converge e d s = Inr s' \<and> count_cpu_set (cpus_taken s') = nat (cpus d) \<and>
              wastebin_cpus_taken s' = nat (cpus d) \<and> wastebin_memory_taken s' = membytes d"
proof -
  have "nat (cpus d) \<le> 2 * max_cpu_count"
    using assms(6) count_cpu_set_le[of "cpus_taken s"]
      count_cpu_set_le[of "(cpus_online s)(0 := False)"] by linarith
  then have "cpus d < int UINT_MOD" by (simp add: UINT_MOD_def max_cpu_count_def)
  with assms(5) have n: "nat (cpus d mod int UINT_MOD) = nat (cpus d)" by simp
  from adjust_cpus_succeeds[OF assms(3,2,6)]
  obtain s1 where a: "adjust_cpus e (nat (cpus d)) s = Inr s1" ..
  from adjust_memory_ok[OF assms(4)]
  obtain s' where m: "adjust_memory e (membytes d) s1 = Inr s'" ..
  from adjust_cpus_post[OF a assms(1)] adjust_memory_cpus[OF m] adjust_memory_post[OF m]
  have "count_cpu_set (cpus_taken s') = nat (cpus d)" "wastebin_cpus_taken s' = nat (cpus d)"
    "wastebin_memory_taken s' = membytes d" by simp_all
  with a m n show ?thesis by (simp add: converge_def)
qed

text \<open>
  Claim C1, witness: the scenario's first target on the machine with eight CPUs.
\<close>

theorem converge_reaches_target_witness:
  "converge replies_ok two_gib_two_cpus eight_cpus = Inr scenario_applied \<and>
   count_cpu_set (cpus_taken scenario_applied) = 2 \<and>
   wastebin_memory_taken scenario_applied = 2147483648"
proof -
  have h2: "wastebin_cpus_taken eight_cpus = count_cpu_set (cpus_taken eight_cpus)"
    by (simp add: eight_cpus_def after_inventory_def count_cpu_set_empty)
  have h5: "0 \<le> cpus two_gib_two_cpus" by (simp add: two_gib_two_cpus_def)
  have "Suc (count_cpu_set ((cpus_upto 8)(0 := False))) = count_cpu_set (cpus_upto 8)"
    by (rule count_cpu_set_clear) (simp_all add: max_cpu_count_def cpus_upto_def)
  then have "count_cpu_set ((cpus_upto 8)(0 := False)) = 7"
    by (simp add: count_cpus_upto max_cpu_count_def)
  then have h6: "nat (cpus two_gib_two_cpus)
        \<le> count_cpu_set (cpus_taken eight_cpus) + count_cpu_set ((cpus_online eight_cpus)(0 := False))"
    by (simp add: two_gib_two_cpus_def eight_cpus_def after_inventory_def)
  from converge_reaches_target [OF disjoint_eight h2 replies_ok_succeed h5 h6]
  obtain s' where s': "converge replies_ok two_gib_two_cpus eight_cpus = Inr s'"
    "count_cpu_set (cpus_taken s') = nat (cpus two_gib_two_cpus)"
    "wastebin_memory_taken s' = membytes two_gib_two_cpus" by auto
  from s'(1) have "s' = scenario_applied" by (simp add: converge_eight_scenario)
  with s' show ?thesis by (simp add: two_gib_two_cpus_def)
qed

text \<open>
  Claim C2 fails as stated: a read that returns 8 of the 16 bytes of a message ends the
  daemon with the fatal exit "reading client command".
\<close>

theorem partial_read_counterexample:
  "wait_for_message [(8, 0, nothing)] [(1, POLLIN)] = Some (Inl (Fail_exit ''reading client command''))"
  by (simp add: SIZE_MOD_def sizeof_desired_def)

text \<open>
  Claim C2, amended. A read that returns 0 bytes, or fails with \<^verbatim>\<open>EAGAIN\<close>, is "no
  message yet": after any number of polls that time out and one that reports the pipe
  readable, the daemon goes on exactly as if it had started with the next read, so
  nothing ended and no registry or locked extent changed; while no poll reports the pipe
  readable it stays blocked. A read that returns between 1 and 15 bytes is fatal.
\<close>

theorem no_data_read_waits:
  assumes "nb = 0 \<or> (nb = - 1 \<and> errno = EAGAIN)"
    and "\<forall>p\<in>set timeouts. 0 \<le> fst p \<and> snd p AND POLLIN = 0"
    and "0 \<le> ec" and "revents AND POLLIN \<noteq> 0"
  shows "wait_for_message ((nb, errno, bytes) # reads) (timeouts @ (ec, revents) # polls)
           = wait_for_message reads polls \<and>
         daemon envs k d ((nb, errno, bytes) # reads) (timeouts @ (ec, revents) # polls) s
           = daemon envs k d reads polls s \<and>
         wait_for_message ((nb, errno, bytes) # reads) timeouts = None \<and>
         (0 < nb' \<and> nb' < sizeof_desired \<longrightarrow>
            wait_for_message ((nb', errno', bytes') # reads') polls'
              = Some (Inl (Fail_exit ''reading client command'')))"
proof -
  have p: "poll_until_ready (timeouts @ (ec, revents) # polls) = Some (Inr polls)"
    using poll_until_ready_timeouts[OF assms(2)] poll_until_ready_ready[OF assms(3,4)] by simp
  have pn: "poll_until_ready timeouts = None"
    using poll_until_ready_timeouts[OF assms(2), of "[]"] by simp
  have w: "wait_for_message ((nb, errno, bytes) # reads) (timeouts @ (ec, revents) # polls)
           = wait_for_message reads polls"
    using assms(1) p by (auto simp: SIZE_MOD_def sizeof_desired_def)
  have dm: "daemon envs k d ((nb, errno, bytes) # reads) (timeouts @ (ec, revents) # polls) s
           = daemon envs k d reads polls s"
    by (subst daemon.simps, subst (2) daemon.simps) (simp only: w)
  have wn: "wait_for_message ((nb, errno, bytes) # reads) timeouts = None"
    using assms(1) pn by (auto simp: SIZE_MOD_def sizeof_desired_def)
  have part: "0 < nb' \<and> nb' < sizeof_desired \<longrightarrow>
            wait_for_message ((nb', errno', bytes') # reads') polls'
              = Some (Inl (Fail_exit ''reading client command''))"
    by (auto simp: SIZE_MOD_def sizeof_desired_def)
  show ?thesis by (rule conjI[OF w conjI[OF dm conjI[OF wn part]]])
qed

text \<open>
  Claim C2, witness: an empty read, a poll that times out, a poll that reports input,
  then a complete message; and a read of 8 bytes.
\<close>

theorem no_data_read_waits_witness:
  "wait_for_message [(0, 0, nothing), (16, 0, nothing)] [(0, 0), (1, POLLIN)]
      = Some (Inr (nothing, [], [])) \<and>
   wait_for_message [(0, 0, nothing), (16, 0, nothing)] [(0, 0)] = None \<and>
   wait_for_message [(8, 0, nothing)] [] = Some (Inl (Fail_exit ''reading client command''))"
proof -
  have h1: "(0::int) = 0 \<or> ((0::int) = - 1 \<and> (0::int) = EAGAIN)" by simp
  have h2: "\<forall>p\<in>set [(0::int, 0::int)]. 0 \<le> fst p \<and> snd p AND POLLIN = 0" by simp
  have h3: "(0::int) \<le> 1" by simp
  have h4: "POLLIN AND POLLIN \<noteq> 0" by (simp add: POLLIN_def)
  have h5: "(0::int) < 8 \<and> 8 < sizeof_desired" by (simp add: sizeof_desired_def)
  from no_data_read_waits [OF h1 h2 h3 h4, of nothing "[(16, 0, nothing)]" "[]" _ _ _ _ 8 0 nothing "[]" "[]"] h5
  show ?thesis by (simp add: SIZE_MOD_def sizeof_desired_def)
qed

text \<open>
  Claim C3, evaluated where the code departs from it. \<^verbatim>\<open>mlock\<close> reports a failure by
  returning -1 and leaving the cause in \<^verbatim>\<open>errno\<close>; \<^verbatim>\<open>adjust_memory\<close> compares the value
  returned with \<^verbatim>\<open>EPERM\<close>. When the lock is refused for lack of privilege the daemon
  therefore exits with the generic diagnostic, not with the one that names
  \<^verbatim>\<open>CAP_IPC_LOCK\<close>, and the outcome is the same as for a refusal with \<^verbatim>\<open>ENOMEM\<close>.
\<close>

theorem permission_failure_reported_as_generic:
  "adjust_memory no_cap_ipc_lock 4096 eight_cpus =
     Inl (Fail_exit (''Can't lock the pages in memory'' @ [CHR 0x0A]),
          eight_cpus\<lparr>issued := [Mlock 0 4096]\<rparr>) \<and>
   adjust_memory no_cap_ipc_lock 4096 eight_cpus = adjust_memory lock_limit_reached 4096 eight_cpus"
  by (simp add: adjust_memory_def no_cap_ipc_lock_def lock_limit_reached_def eight_cpus_def
        after_inventory_def EPERM_def ENOMEM_def)

text \<open>
  Claim C4 fails as stated. The text "4094-4096" refers to the ids 4094 and 4095, both
  below \<open>max_cpu_count\<close>, through a range whose upper end is beyond it; the parser marks
  nothing, because it marks a range only when both ends are below \<open>max_cpu_count\<close>.
\<close>

theorem range_beyond_max_counterexample:
  "(4094::nat) < max_cpu_count \<and> (4095::nat) < max_cpu_count \<and>
   marked (fst (parse_sysfs_cpu_set ''4094-4096'' 0 no_flags)) = {} \<and>
   snd (parse_sysfs_cpu_set ''4094-4096'' 0 no_flags) = List_end"
  by (auto simp: parse_eval)

text \<open>
  Claim C4, amended. For every range-list text (a non-empty comma-separated list of ids
  and \<open>lo-hi\<close> ranges in decimal, each id below \<open>2 ^ 32\<close>, ended by a newline or the end
  of the input, shorter than the 4096-byte buffer) in which every range inside the index
  domain that is followed by a comma ends at a multiple of 256, and whatever the bytes of
  \<^verbatim>\<open>ul\<close> held before, the parser returns at the end of the list without a diagnostic, and
  the CPUs marked afterwards are those marked before, every single id below
  \<open>max_cpu_count\<close>, and all ids \<open>lo..hi\<close> of every range both of whose ends are below
  \<open>max_cpu_count\<close>. A single id at or beyond \<open>max_cpu_count\<close> is ignored, and so is the
  whole of a range with an end at or beyond it. The other ranges followed by a comma are
  left out: there the NUL stored after the comma cuts the upper end down to a multiple of
  256 before the range is marked (\<open>range_before_comma_cut\<close>: "1-3,5" marks CPU 5 alone).
\<close>

theorem range_list_marks:
  assumes "items \<noteq> []" and "\<forall>x\<in>set items. item_fits x"
    and "commas_harmless items"
    and "tail = [] \<or> hd tail = CHR 0x0A"
    and "length (range_list_text items @ tail) < 4096"
  shows "snd (parse_sysfs_cpu_set (range_list_text items @ tail) ul0 cs) = List_end \<and>
         marked (fst (parse_sysfs_cpu_set (range_list_text items @ tail) ul0 cs))
           = marked cs \<union> (\<Union>x\<in>set items. item_ids x)"
proof -
  have "parse_sysfs_cpu_set (range_list_text items @ tail) ul0 cs
        = parse_groups ([] @ range_list_text items @ tail) (length ([]::string)) ul0 cs"
    using assms(5) by (simp add: parse_sysfs_cpu_set_def)
  also have "\<dots> = (fold mark_item items cs, List_end)"
    using assms(1-4) by (rule parse_groups_range_list)
  finally have p: "parse_sysfs_cpu_set (range_list_text items @ tail) ul0 cs
                   = (fold mark_item items cs, List_end)" .
  have "marked (fold mark_item items cs) = marked cs \<union> (\<Union>x\<in>set items. item_ids x)"
    using fold_mark_item_ids[of items cs] item_ids_bounded
    by (auto simp: marked_def)
  with p show ?thesis by simp
qed

text \<open>
  Claim C4, witness: the text "1000,0-256,5000,4094-4099,300-303" with its newline marks
  0 to 256, 300 to 303 and 1000.
\<close>

theorem range_list_marks_witness:
  "range_list_text mixed_items @ [CHR 0x0A]
     = ''1000,0-256,5000,4094-4099,300-303'' @ [CHR 0x0A] \<and>
   snd (parse_sysfs_cpu_set (''1000,0-256,5000,4094-4099,300-303'' @ [CHR 0x0A]) 0 no_flags)
     = List_end \<and>
   marked (fst (parse_sysfs_cpu_set (''1000,0-256,5000,4094-4099,300-303'' @ [CHR 0x0A]) 0
             no_flags))
     = {0..256} \<union> {300..303} \<union> {1000}"
proof -
  have rendered: "range_list_text mixed_items @ [CHR 0x0A]
      = ''1000,0-256,5000,4094-4099,300-303'' @ [CHR 0x0A]"
    by (simp add: mixed_items_def decimal.simps digit_char_def)
  have h1: "mixed_items \<noteq> []" by (simp add: mixed_items_def)
  have h2: "\<forall>x\<in>set mixed_items. item_fits x" by (simp add: mixed_items_def UINT_MOD_def)
  have h3: "commas_harmless mixed_items" by (simp add: mixed_items_def max_cpu_count_def)
  have h4: "[CHR 0x0A] = [] \<or> hd [CHR 0x0A] = CHR 0x0A" by simp
  have h5: "length (range_list_text mixed_items @ [CHR 0x0A]) < 4096"
    unfolding rendered by simp
  have ids: "marked no_flags \<union> (\<Union>x\<in>set mixed_items. item_ids x)
             = {0..256} \<union> {300..303} \<union> {1000}"
    by (auto simp: mixed_items_def marked_def no_flags_def max_cpu_count_def)
  from range_list_marks [OF h1 h2 h3 h4 h5, of 0 no_flags] rendered ids
  show ?thesis by simp
qed

text \<open>
  Claim C5, evaluated where the code departs from it. In "0 5" and in "0-1 5" the
  blank is an anomaly: the list is not comma-separated there, and the valid prefix is
  the list "0", which marks 0, or "0-1", which marks 0 and 1. After the range the code
  adds the length of the number to \<^verbatim>\<open>nxt\<close> with the comment
  that a character other than NUL at this place cannot be a digit, "so we fail"; but the
  next \<^verbatim>\<open>%u\<close> skips the blank, so parsing does not stop: CPU 5 is marked too and no
  diagnostic is printed. In "0-3,garbage" parsing does stop at "garbage", with the
  diagnostic at offset 4, but the memberships kept are not those of the valid prefix
  "0-3": the NUL that \<^verbatim>\<open>%[,]\<close> stores after the comma has cleared the low byte of \<^verbatim>\<open>ul\<close>,
  and the range marked is 0 to 0. In "0-3,,5" the empty element is not an anomaly to the
  code, which takes both commas with one \<^verbatim>\<open>%[,]\<close>; the second comma and the NUL make
  \<^verbatim>\<open>ul\<close> 44, and CPUs 0 to 44 are marked. All of this holds whatever the bytes of \<^verbatim>\<open>ul\<close>
  held before.
\<close>

theorem anomaly_not_stopped_at:
  "range_list_text [Single 0] = ''0'' \<and>
   marked (fst (parse_sysfs_cpu_set ''0'' ul0 no_flags)) = {0} \<and>
   marked (fst (parse_sysfs_cpu_set ''0 5'' ul0 no_flags)) = {0, 5} \<and>
   snd (parse_sysfs_cpu_set ''0 5'' ul0 no_flags) = List_end \<and>
   range_list_text [Range 0 1] = ''0-1'' \<and>
   marked (fst (parse_sysfs_cpu_set ''0-1'' ul0 no_flags)) = {0, 1} \<and>
   marked (fst (parse_sysfs_cpu_set ''0-1 5'' ul0 no_flags)) = {0, 1, 5} \<and>
   snd (parse_sysfs_cpu_set ''0-1 5'' ul0 no_flags) = List_end \<and>
   range_list_text [Range 0 3] = ''0-3'' \<and>
   marked (fst (parse_sysfs_cpu_set ''0-3'' ul0 no_flags)) = {0, 1, 2, 3} \<and>
   marked (fst (parse_sysfs_cpu_set ''0-3,garbage'' ul0 no_flags)) = {0} \<and>
   snd (parse_sysfs_cpu_set ''0-3,garbage'' ul0 no_flags) = Gave_up 4 \<and>
   marked (fst (parse_sysfs_cpu_set ''0-3,,5'' ul0 no_flags)) = {0..44} \<and>
   snd (parse_sysfs_cpu_set ''0-3,,5'' ul0 no_flags) = List_end"
proof -
  have "range_list_text [Single 0] = ''0''"
    "range_list_text [Range 0 1] = ''0-1''" "range_list_text [Range 0 3] = ''0-3''"
    by (simp_all add: decimal.simps digit_char_def)
  then show ?thesis by (auto simp: parse_eval)
qed

text \<open>
  Claim C6. An adjustment of the CPUs that completes has issued, after what was issued
  before, exactly these transitions in this order: offline for the first
  \<open>ncpus - |Taken|\<close> CPUs of \<open>Online\<close> counted from the highest index downward, then
  online for the first \<open>|Taken| - ncpus\<close> CPUs of \<open>Taken\<close> counted from the lowest index
  upward (one of the two lists is empty); the CPUs taken offline have moved from \<open>Online\<close>
  to \<open>Taken\<close>, the CPUs put online from \<open>Taken\<close> to \<open>Online\<close>, and no other flag has
  changed. A convergence iteration that completes has made these CPU transitions and no
  other. The scan for a CPU to take returns the highest online index below its starting
  point, and the scan for a CPU to release the lowest taken index from its starting
  point on. Consequently, in every session that starts from the inventory and reaches a
  state with no CPU taken after at least one transition, the first transition took some
  CPU offline and the last transition put that same CPU back online; so it is in every
  run of the daemon loop that ends with its \<^verbatim>\<open>break\<close>.
\<close>

theorem first_taken_last_released:
  "(adjust_cpus e ncpus s0 = Inr s1 \<longrightarrow>
      length (picked_to_take ncpus s0) = ncpus - wastebin_cpus_taken s0 \<and>
      length (picked_to_release ncpus s0) = wastebin_cpus_taken s0 - ncpus \<and>
      issued s1 = issued s0 @ map (\<lambda>c. Cpu_state c False) (picked_to_take ncpus s0)
                            @ map (\<lambda>c. Cpu_state c True) (picked_to_release ncpus s0) \<and>
      (\<forall>i. cpus_online s1 i \<longleftrightarrow>
            (cpus_online s0 i \<and> i \<notin> set (picked_to_take ncpus s0)) \<or>
            i \<in> set (picked_to_release ncpus s0)) \<and>
      (\<forall>i. cpus_taken s1 i \<longleftrightarrow>
            (cpus_taken s0 i \<and> i \<notin> set (picked_to_release ncpus s0)) \<or>
            i \<in> set (picked_to_take ncpus s0))) \<and>
   (converge e d0 s0 = Inr s2 \<longrightarrow>
      cpu_toggles s2 = cpu_toggles s0
        @ map (\<lambda>c. (c, False)) (picked_to_take (nat (cpus d0 mod int UINT_MOD)) s0)
        @ map (\<lambda>c. (c, True)) (picked_to_release (nat (cpus d0 mod int UINT_MOD)) s0)) \<and>
   (scan_last_online online lo = Inr k \<and> lo \<le> max_cpu_count \<longrightarrow>
      k < lo \<and> online k \<and> (\<forall>j. k < j \<and> j < lo \<longrightarrow> \<not> online j)) \<and>
   (scan_first_taken taken ft = Inr k' \<longrightarrow>
      ft \<le> k' \<and> taken k' \<and> (\<forall>j. ft \<le> j \<and> j < k' \<longrightarrow> \<not> taken j)) \<and>
   (session (after_inventory online0 m) s \<and> count_cpu_set (cpus_taken s) = 0 \<and> cpu_toggles s \<noteq> []
      \<longrightarrow> (\<exists>c. hd (cpu_toggles s) = (c, False) \<and> last (cpu_toggles s) = (c, True))) \<and>
   (daemon envs n d reads polls (after_inventory online0 m) = Some (Finished s') \<and>
      cpu_toggles s' \<noteq> []
      \<longrightarrow> (\<exists>c. hd (cpu_toggles s') = (c, False) \<and> last (cpu_toggles s') = (c, True)))"
proof -
  have picks: "adjust_cpus e ncpus s0 = Inr s1 \<longrightarrow>
      length (picked_to_take ncpus s0) = ncpus - wastebin_cpus_taken s0 \<and>
      length (picked_to_release ncpus s0) = wastebin_cpus_taken s0 - ncpus \<and>
      issued s1 = issued s0 @ map (\<lambda>c. Cpu_state c False) (picked_to_take ncpus s0)
                            @ map (\<lambda>c. Cpu_state c True) (picked_to_release ncpus s0) \<and>
      (\<forall>i. cpus_online s1 i \<longleftrightarrow>
            (cpus_online s0 i \<and> i \<notin> set (picked_to_take ncpus s0)) \<or>
            i \<in> set (picked_to_release ncpus s0)) \<and>
      (\<forall>i. cpus_taken s1 i \<longleftrightarrow>
            (cpus_taken s0 i \<and> i \<notin> set (picked_to_release ncpus s0)) \<or>
            i \<in> set (picked_to_take ncpus s0))"
    by (rule impI) (rule adjust_cpus_picks)
  have step: "converge e d0 s0 = Inr s2 \<longrightarrow>
      cpu_toggles s2 = cpu_toggles s0
        @ map (\<lambda>c. (c, False)) (picked_to_take (nat (cpus d0 mod int UINT_MOD)) s0)
        @ map (\<lambda>c. (c, True)) (picked_to_release (nat (cpus d0 mod int UINT_MOD)) s0)"
    by (rule impI) (rule converge_picks)
  have down: "scan_last_online online lo = Inr k \<and> lo \<le> max_cpu_count \<longrightarrow>
      k < lo \<and> online k \<and> (\<forall>j. k < j \<and> j < lo \<longrightarrow> \<not> online j)"
    using scan_last_online_Inr[of online lo k] by simp
  have up: "scan_first_taken taken ft = Inr k' \<longrightarrow>
      ft \<le> k' \<and> taken k' \<and> (\<forall>j. ft \<le> j \<and> j < k' \<longrightarrow> \<not> taken j)"
    using scan_first_taken_Inr[of taken ft k'] by simp
  have released: "\<exists>c. hd (cpu_toggles t) = (c, False) \<and> last (cpu_toggles t) = (c, True)"
    if "session (after_inventory online0 m) t" "count_cpu_set (cpus_taken t) = 0"
      "cpu_toggles t \<noteq> []" for t
  proof -
    from that(1) have "lifo_inv t" using after_inventory_lifo by (rule session_lifo)
    moreover from that(2) have "\<forall>i<max_cpu_count. \<not> cpus_taken t i"
      by (simp add: count_cpu_set_zero)
    ultimately show ?thesis
      using that(3) unfolding lifo_inv_def first_taken_stays_def by auto
  qed
  have sess: "session (after_inventory online0 m) s \<and> count_cpu_set (cpus_taken s) = 0 \<and>
      cpu_toggles s \<noteq> []
      \<longrightarrow> (\<exists>c. hd (cpu_toggles s) = (c, False) \<and> last (cpu_toggles s) = (c, True))"
    using released[of s] by simp
  have run: "daemon envs n d reads polls (after_inventory online0 m) = Some (Finished s') \<and>
      cpu_toggles s' \<noteq> []
      \<longrightarrow> (\<exists>c. hd (cpu_toggles s') = (c, False) \<and> last (cpu_toggles s') = (c, True))"
  proof
    assume a: "daemon envs n d reads polls (after_inventory online0 m) = Some (Finished s') \<and>
               cpu_toggles s' \<noteq> []"
    then have fin: "daemon envs n d reads polls (after_inventory online0 m) = Some (Finished s')"
      and ne: "cpu_toggles s' \<noteq> []" by simp_all
    from daemon_finished[OF fin]
    have se: "session (after_inventory online0 m) s'" and z: "wastebin_cpus_taken s' = 0"
      by simp_all
    from session_consistent[OF se] z have "count_cpu_set (cpus_taken s') = 0" by simp
    with se ne show "\<exists>c. hd (cpu_toggles s') = (c, False) \<and> last (cpu_toggles s') = (c, True)"
      by (intro released)
  qed
  show ?thesis by (rule conjI[OF picks conjI[OF step conjI[OF down conjI[OF up conjI[OF sess run]]]]])
qed

text \<open>
  Claim C6, witness: the scenario. With the target of two CPUs on the machine with
  eight, CPU 7 is taken first and CPU 6 second; with the target of none, CPU 6 is
  released first and CPU 7 last.
\<close>

theorem first_taken_last_released_witness:
  "adjust_cpus replies_ok 2 eight_cpus = Inr two_taken \<and>
   picked_to_take 2 eight_cpus = [7, 6] \<and>
   converge replies_ok two_gib_two_cpus eight_cpus = Inr scenario_applied \<and>
   cpu_toggles scenario_applied = cpu_toggles eight_cpus @ [(7, False), (6, False)] \<and>
   issued two_taken = issued eight_cpus @ [Cpu_state 7 False, Cpu_state 6 False] \<and>
   picked_to_release 0 scenario_applied = [6, 7] \<and>
   adjust_cpus replies_ok 0 scenario_applied = Inr two_released \<and>
   issued two_released = issued scenario_applied @ [Cpu_state 6 True, Cpu_state 7 True] \<and>
   scan_last_online (cpus_upto 8) max_cpu_count = Inr 7 \<and>
   scan_first_taken (cpus_taken scenario_applied) 0 = Inr 6 \<and>
   session eight_cpus scenario_drained \<and>
   daemon (\<lambda>k. replies_ok) 0 two_gib_two_cpus [(16, 0, nothing)] [] eight_cpus
     = Some (Finished scenario_drained) \<and>
   count_cpu_set (cpus_taken scenario_drained) = 0 \<and>
   hd (cpu_toggles scenario_drained) = (7, False) \<and>
   last (cpu_toggles scenario_drained) = (7, True)"
proof -
  have sc1: "scan_last_online (cpus_upto 8) max_cpu_count = Inr 7"
    by (rule scan_last_online_eqI) (auto simp: cpus_upto_def max_cpu_count_def)
  have sc2: "scan_first_taken (cpus_taken scenario_applied) 0 = Inr 6"
    by (rule scan_first_taken_eqI) (auto simp: scenario_applied_def max_cpu_count_def)
  have "session eight_cpus eight_cpus" by (rule session_start)
  then have "session eight_cpus scenario_applied"
    using converge_eight_scenario by (rule session_next)
  then have sess: "session eight_cpus scenario_drained"
    using converge_scenario_drained by (rule session_next)
  have cnt: "count_cpu_set (cpus_taken scenario_drained) = 0"
    by (simp add: scenario_drained_def count_cpu_set_empty)
  have ne: "cpu_toggles scenario_drained \<noteq> []"
    by (simp add: cpu_toggles_def scenario_drained_def)
  have hd7: "hd (cpu_toggles scenario_drained) = (7, False)"
    by (simp add: cpu_toggles_def scenario_drained_def)
  have c8: "wastebin_cpus_taken eight_cpus = 0"
    by (simp add: eight_cpus_def after_inventory_def)
  have c2: "wastebin_cpus_taken scenario_applied = 2"
    by (simp add: scenario_applied_def)
  note inst = first_taken_last_released [where e = replies_ok and ncpus = 2
      and ?s0.0 = eight_cpus and ?s1.0 = two_taken
      and ?d0.0 = two_gib_two_cpus and ?s2.0 = scenario_applied
      and online = "cpus_upto 8" and lo = max_cpu_count and k = 7
      and taken = "cpus_taken scenario_applied" and ft = 0 and k' = 6
      and ?online0.0 = "cpus_upto 8" and m = 8589934592 and s = scenario_drained
      and envs = "\<lambda>k. replies_ok" and n = 0 and d = two_gib_two_cpus
      and reads = "[(16, 0, nothing)]" and polls = "[]" and s' = scenario_drained]
  from inst adjust_cpus_eight_two picked_eight_two c8
  have took: "issued two_taken = issued eight_cpus @ [Cpu_state 7 False, Cpu_state 6 False]"
    by (simp add: picked_to_release_def)
  have n2: "nat (cpus two_gib_two_cpus mod int UINT_MOD) = 2"
    by (simp add: two_gib_two_cpus_def UINT_MOD_def)
  from inst converge_eight_scenario picked_eight_two c8
  have stepped: "cpu_toggles scenario_applied = cpu_toggles eight_cpus @ [(7, False), (6, False)]"
    by (simp add: n2 picked_to_release_def)
  from inst sc1 sc2 sess cnt ne daemon_scenario
  have "\<exists>c. hd (cpu_toggles scenario_drained) = (c, False) \<and>
            last (cpu_toggles scenario_drained) = (c, True)"
    by (simp add: eight_cpus_def)
  with hd7 have last7: "last (cpu_toggles scenario_drained) = (7, True)" by auto
  from first_taken_last_released [where e = replies_ok and ncpus = 0
      and ?s0.0 = scenario_applied and ?s1.0 = two_released]
    adjust_cpus_two_released picked_release_two c2
  have released: "issued two_released
      = issued scenario_applied @ [Cpu_state 6 True, Cpu_state 7 True]"
    by (simp add: picked_to_take_def)
  from took stepped converge_eight_scenario released last7 sc1 sc2 sess cnt hd7 daemon_scenario adjust_cpus_eight_two
    picked_eight_two picked_release_two adjust_cpus_two_released
  show ?thesis by simp
qed

text \<open>
  Claim C7. If \<open>Online\<close> and \<open>Taken\<close> are disjoint when an adjustment begins and the
  adjustment completes, they are disjoint in the state it returns: no CPU index is in
  both. This holds for every single call of \<^verbatim>\<open>adjust_cpus\<close>, of \<^verbatim>\<open>adjust_memory\<close> and of
  the two in sequence, for every target.
\<close>

theorem disjoint_after_every_adjustment:
  "online_taken_disjoint s \<Longrightarrow>
     (adjust_cpus e ncpus s = Inr s1 \<longrightarrow> online_taken_disjoint s1) \<and>
     (adjust_memory e mem s = Inr s2 \<longrightarrow> online_taken_disjoint s2) \<and>
     (converge e d s = Inr s3 \<longrightarrow> online_taken_disjoint s3)"
proof -
  assume dis: "online_taken_disjoint s"
  have c: "adjust_cpus e ncpus s = Inr s1 \<longrightarrow> online_taken_disjoint s1"
    using adjust_cpus_disjoint[of e ncpus s s1] dis by simp
  have m: "adjust_memory e mem s = Inr s2 \<longrightarrow> online_taken_disjoint s2"
    using adjust_memory_disjoint[of e mem s s2] dis by simp
  have b: "converge e d s = Inr s3 \<longrightarrow> online_taken_disjoint s3"
  proof
    assume "converge e d s = Inr s3"
    then obtain t where a: "adjust_cpus e (nat (cpus d mod int UINT_MOD)) s = Inr t"
      and mm: "adjust_memory e (membytes d) t = Inr s3"
      by (auto simp: converge_def split: sum.splits)
    from adjust_memory_disjoint[OF mm adjust_cpus_disjoint[OF a dis]]
    show "online_taken_disjoint s3" .
  qed
  show ?thesis by (rule conjI[OF c conjI[OF m b]])
qed

text \<open>
  Claim C7, witness: on the machine with eight CPUs, taking two CPUs, locking 2 GiB, and
  the scenario's first target.
\<close>

theorem disjoint_after_every_adjustment_witness:
  "online_taken_disjoint eight_cpus \<and>
   adjust_cpus replies_ok 2 eight_cpus = Inr two_taken \<and> online_taken_disjoint two_taken \<and>
   adjust_memory replies_ok 2147483648 eight_cpus = Inr two_gib_locked \<and>
   online_taken_disjoint two_gib_locked \<and>
   converge replies_ok two_gib_two_cpus eight_cpus = Inr scenario_applied \<and>
   online_taken_disjoint scenario_applied"
proof -
  have m: "adjust_memory replies_ok 2147483648 eight_cpus = Inr two_gib_locked"
    by (simp add: adjust_memory_def eight_cpus_def after_inventory_def replies_ok_def
          two_gib_locked_def)
  from disjoint_after_every_adjustment [OF disjoint_eight, of replies_ok 2 two_taken
      2147483648 two_gib_locked two_gib_two_cpus scenario_applied]
    adjust_cpus_eight_two m converge_eight_scenario disjoint_eight
  show ?thesis by simp
qed

text \<open>
  Claim C8, evaluated where the code departs from it. \<^verbatim>\<open>last_online\<close> is unsigned, so
  the guard \<^verbatim>\<open>last_online >= 0\<close> of the downward scan never stops it. When no CPU is marked
  online and one CPU is asked for, the scan passes index 0 without a fatal exit, wraps to
  4294967295 and reads \<^verbatim>\<open>cpus_online\<close> outside its index domain. The same happens when
  CPUs 1 to 3 are online, CPU 0 is not and four CPUs are asked for, after the three have
  been taken.
\<close>

theorem scan_leaves_index_domain:
  "adjust_cpus replies_ok 1 no_cpus_seen = Inl (Out_of_bounds 4294967295, no_cpus_seen) \<and>
   adjust_cpus replies_ok 4 cpu0_offline = Inl (Out_of_bounds 4294967295, all_three_taken)"
proof -
  have "scan_last_online (cpus_upto 0) max_cpu_count = Inl (Out_of_bounds (UINT_MOD - 1))"
    by (rule scan_last_online_none) (simp_all add: cpus_upto_def)
  then have none: "adjust_cpus replies_ok 1 no_cpus_seen
                   = Inl (Out_of_bounds 4294967295, no_cpus_seen)"
    by (simp add: adjust_cpus_def no_cpus_seen_def after_inventory_def count_cpu_set_empty
          take_offline_eval replies_ok_succeed UINT_MOD_def)
  have sc3: "scan_last_online ((cpus_upto 4)(0 := False)) max_cpu_count = Inr 3"
    by (rule scan_last_online_eqI) (auto simp: cpus_upto_def max_cpu_count_def)
  have sc2: "scan_last_online ((cpus_upto 4)(0 := False, 3 := False)) 3 = Inr 2"
    by (rule scan_last_online_eqI) (auto simp: cpus_upto_def max_cpu_count_def)
  have sc1: "scan_last_online ((cpus_upto 4)(0 := False, 3 := False, 2 := False)) 2 = Inr (Suc 0)"
    by (rule scan_last_online_eqI) (auto simp: cpus_upto_def max_cpu_count_def)
  have sc0: "scan_last_online ((cpus_upto 4)(0 := False, 3 := False, 2 := False, Suc 0 := False))
               (Suc 0) = Inl (Out_of_bounds (UINT_MOD - 1))"
    by (rule scan_last_online_none) (simp_all add: max_cpu_count_def)
  have "adjust_cpus replies_ok 4 cpu0_offline = Inl (Out_of_bounds 4294967295, all_three_taken)"
    by (simp add: adjust_cpus_def cpu0_offline_def all_three_taken_def after_inventory_def
          count_cpu_set_empty take_offline_eval replies_ok_succeed sc3 sc2 sc1 sc0 UINT_MOD_def)
  with none show ?thesis by simp
qed

text \<open>
  Claim C9. When a target has been applied to a state with \<open>Online\<close> and \<open>Taken\<close>
  disjoint, applying the same target again returns the very same state, whatever the
  operating system would answer the second time. The state holds \<open>Online\<close>, \<open>Taken\<close>,
  \<open>memory_taken\<close> and the log of operations issued: all are unchanged, so the second
  application issued no CPU transition and no lock or unlock.
\<close>

theorem same_target_twice:
  assumes "online_taken_disjoint s" and "converge e d s = Inr s'"
  shows "converge e' d s' = Inr s'"
proof -
  from assms(2) obtain s1 where a: "adjust_cpus e (nat (cpus d mod int UINT_MOD)) s = Inr s1"
    and m: "adjust_memory e (membytes d) s1 = Inr s'"
    by (auto simp: converge_def split: sum.splits)
  from adjust_cpus_post[OF a assms(1)] adjust_memory_cpus[OF m]
  have "count_cpu_set (cpus_taken s') = wastebin_cpus_taken s'"
    "wastebin_cpus_taken s' = nat (cpus d mod int UINT_MOD)" by simp_all
  then have "adjust_cpus e' (nat (cpus d mod int UINT_MOD)) s' = Inr s'"
    by (rule adjust_cpus_idle)
  moreover from adjust_memory_post[OF m] have "adjust_memory e' (membytes d) s' = Inr s'"
    by (rule adjust_memory_idle)
  ultimately show "converge e' d s' = Inr s'" by (simp add: converge_def)
qed

text \<open>
  Claim C9, witness: the scenario's first target applied twice, the second time under
  an operating system that would refuse every lock.
\<close>

theorem same_target_twice_witness:
  "online_taken_disjoint eight_cpus \<and>
   converge replies_ok two_gib_two_cpus eight_cpus = Inr scenario_applied \<and>
   converge no_cap_ipc_lock two_gib_two_cpus scenario_applied = Inr scenario_applied"
  using same_target_twice [OF disjoint_eight converge_eight_scenario, of no_cap_ipc_lock]
    disjoint_eight converge_eight_scenario
  by simp

text \<open>
  Claim C10. When \<^verbatim>\<open>mkfifo\<close> fails because the endpoint exists and the endpoint can be
  opened for writing, the invocation writes the message once, closes the pipe and
  returns 0; the value \<^verbatim>\<open>write\<close> returned has no influence, so a lost or partial
  message gives the same outcome as a delivered one.
\<close>

theorem write_result_ignored:
  "fst made < 0 \<Longrightarrow> snd made = EEXIST \<Longrightarrow> 0 \<le> pipefd \<Longrightarrow>
     rendezvous d made pipefd written = (Return_status 0, [Pipe_write d, Pipe_close]) \<and>
     rendezvous d made pipefd written = rendezvous d made pipefd written'"
  by (simp add: rendezvous_def)

text \<open>
  Claim C10, witness: a failed write and a complete one.
\<close>

theorem write_result_ignored_witness:
  "rendezvous two_gib_two_cpus (- 1, EEXIST) 3 (- 1) =
     (Return_status 0, [Pipe_write two_gib_two_cpus, Pipe_close]) \<and>
   rendezvous two_gib_two_cpus (- 1, EEXIST) 3 (- 1) = rendezvous two_gib_two_cpus (- 1, EEXIST) 3 16"
  by (rule write_result_ignored) simp_all

end
